theory Spec2Isabelle
  imports Main "HOL-Library.Char_ord"
begin

section \<open>Discord Message Fetcher: data model\<close>

text \<open>
  The script works on the JSON objects that the channel-messages endpoint returns.
  Every field the script reads through \<^verbatim>\<open>dict.get\<close> or tests with \<^verbatim>\<open>in\<close> may be
  absent, so it is an \<open>option\<close> here; \<open>None\<close> is the absent key.  A field that is
  present holds a value of the type the endpoint documents (a string, a list, an
  object); a JSON \<^verbatim>\<open>null\<close> or a value of another type is outside the model.  Python
  strings are modelled as \<open>string\<close>, a list of 8-bit characters holding the UTF-8 bytes; the URL
  pattern below has ASCII character classes only, so a code point beyond ASCII and the
  bytes of its encoding are alike outside every class.
\<close>

record attachment =
  att_filename :: "string option"
  att_url :: "string option"

text \<open>The sub-objects \<^verbatim>\<open>embed['image']\<close>, \<^verbatim>\<open>embed['thumbnail']\<close> and \<^verbatim>\<open>embed['video']\<close>.\<close>

record media =
  media_url :: "string option"

record embed =
  embed_url :: "string option"
  image :: "media option"
  thumbnail :: "media option"
  video :: "media option"

record user =
  username :: "string option"

record message =
  msg_id :: string
  author :: "user option"
  timestamp :: "string option"
  content :: "string option"
  attachments :: "attachment list option"
  embeds :: "embed list option"

text \<open>\<^verbatim>\<open>d.get(key, default)\<close>\<close>

definition get_default :: "'a option \<Rightarrow> 'a \<Rightarrow> 'a" where
  "get_default v d = (case v of None \<Rightarrow> d | Some x \<Rightarrow> x)"

section \<open>The URL pattern of \<^verbatim>\<open>extract_links\<close>\<close>

text \<open>
  \<^verbatim>\<open>http[s]?://(?:[a-zA-Z]|[0-9]|[$-_@.&+]|[!*\(\),]|(?:%[0-9a-fA-F][0-9a-fA-F]))+\<close>

  One definition per character class, in the order of the alternatives.  Inside a
  class, \<^verbatim>\<open>$-_\<close> is a range: every character from \<^verbatim>\<open>$\<close> (0x24) to \<^verbatim>\<open>_\<close> (0x5F).
\<close>

definition letter :: "char \<Rightarrow> bool" where
  "letter c \<longleftrightarrow> (CHR ''a'' \<le> c \<and> c \<le> CHR ''z'') \<or> (CHR ''A'' \<le> c \<and> c \<le> CHR ''Z'')"

definition digit :: "char \<Rightarrow> bool" where
  "digit c \<longleftrightarrow> CHR ''0'' \<le> c \<and> c \<le> CHR ''9''"

definition sym_class :: "char \<Rightarrow> bool" where
  "sym_class c \<longleftrightarrow> (CHR ''$'' \<le> c \<and> c \<le> CHR ''_'') \<or> c = CHR ''@'' \<or> c = CHR ''.''
     \<or> c = CHR ''&'' \<or> c = CHR ''+''"

definition punct_class :: "char \<Rightarrow> bool" where
  "punct_class c \<longleftrightarrow> c = CHR ''!'' \<or> c = CHR ''*'' \<or> c = CHR ''('' \<or> c = CHR '')''
     \<or> c = CHR '',''"

definition hexdigit :: "char \<Rightarrow> bool" where
  "hexdigit c \<longleftrightarrow> (CHR ''0'' \<le> c \<and> c \<le> CHR ''9'') \<or> (CHR ''a'' \<le> c \<and> c \<le> CHR ''f'')
     \<or> (CHR ''A'' \<le> c \<and> c \<le> CHR ''F'')"

text \<open>
  One iteration of the group \<^verbatim>\<open>(?:...)\<close>: the alternatives are tried from left to right
  and the first one that matches is taken; the result is the text left after it.
\<close>

fun url_group :: "string \<Rightarrow> string option" where
  "url_group [] = None"
| "url_group (c # cs) =
     (if letter c then Some cs
      else if digit c then Some cs
      else if sym_class c then Some cs
      else if punct_class c then Some cs
      else (case cs of
              h1 # h2 # rest \<Rightarrow>
                if c = CHR ''%'' \<and> hexdigit h1 \<and> hexdigit h2 then Some rest else None
            | _ \<Rightarrow> None))"

lemma url_group_shorter: "url_group s = Some r \<Longrightarrow> length r < length s"
  by (cases s) (auto split: if_splits list.splits)

text \<open>
  The greedy repetition: as many iterations as match.  Nothing follows the group in
  the pattern, so the matcher never gives an iteration back.  The result is the text
  left after the last iteration.
\<close>

function url_run :: "string \<Rightarrow> string" where
  "url_run s = (case url_group s of None \<Rightarrow> s | Some r \<Rightarrow> url_run r)"
  by pat_completeness auto
termination
  by (relation "measure length") (auto dest: url_group_shorter)

declare url_run.simps [simp del]

text \<open>A literal of the pattern: the text left after it, if the input starts with it.\<close>

fun literal :: "string \<Rightarrow> string \<Rightarrow> string option" where
  "literal [] s = Some s"
| "literal (p # ps) [] = None"
| "literal (p # ps) (c # cs) = (if p = c then literal ps cs else None)"

text \<open>\<^verbatim>\<open>://(?:...)+\<close>: the literal, then one iteration at least.\<close>

definition url_tail :: "string \<Rightarrow> string option" where
  "url_tail s =
     (case literal ''://'' s of
        None \<Rightarrow> None
      | Some r \<Rightarrow> (case url_group r of None \<Rightarrow> None | Some r' \<Rightarrow> Some (url_run r')))"

text \<open>
  The whole pattern at the start of \<open>s\<close>: the text left after the match.  The optional
  \<^verbatim>\<open>[s]?\<close> is greedy: the matcher first takes the \<^verbatim>\<open>s\<close> and, should the rest of the
  pattern fail, retries without it.
\<close>

definition url_match :: "string \<Rightarrow> string option" where
  "url_match s =
     (case literal ''http'' s of
        None \<Rightarrow> None
      | Some r \<Rightarrow>
          (case (case r of c # r' \<Rightarrow> if c = CHR ''s'' then url_tail r' else None | [] \<Rightarrow> None) of
             Some rest \<Rightarrow> Some rest
           | None \<Rightarrow> url_tail r))"

lemma literal_append: "literal p s = Some r \<Longrightarrow> s = p @ r"
  by (induction p s rule: literal.induct) (auto split: if_splits)

lemma url_run_suffix: "\<exists>m. s = m @ url_run s"
proof (induction s rule: url_run.induct)
  case (1 s)
  show ?case
  proof (cases "url_group s")
    case None
    then show ?thesis by (simp add: url_run.simps [of s])
  next
    case (Some r)
    from Some have "\<exists>k. s = k @ r"
      by (cases s) (auto split: if_splits list.splits)
    moreover from 1 [OF Some] obtain m where "r = m @ url_run r" by blast
    ultimately show ?thesis
      using Some by (auto simp: url_run.simps [of s]) (metis append.assoc)
  qed
qed

lemma url_run_length: "length (url_run s) \<le> length s"
proof -
  obtain m where "s = m @ url_run s" using url_run_suffix by blast
  then have "length s = length m + length (url_run s)"
    by (metis length_append)
  then show ?thesis by simp
qed

lemma url_tail_shorter: "url_tail s = Some r \<Longrightarrow> length r < length s"
  unfolding url_tail_def
  by (auto split: option.splits dest!: literal_append url_group_shorter
      intro: le_less_trans [OF url_run_length] less_trans)

lemma url_match_shorter: "url_match s = Some r \<Longrightarrow> length r < length s"
  unfolding url_match_def
  by (auto split: option.splits list.splits if_splits dest!: literal_append url_tail_shorter)

text \<open>
  \<^verbatim>\<open>url_pattern.findall(content)\<close>: scan from left to right; where the pattern matches,
  report the matched text and go on after it; elsewhere move one character on.  The
  pattern has no capturing group, so the whole match is reported.
\<close>

function findall :: "string \<Rightarrow> string list" where
  "findall [] = []"
| "findall (c # cs) =
     (case url_match (c # cs) of
        Some rest \<Rightarrow> take (length (c # cs) - length rest) (c # cs) # findall rest
      | None \<Rightarrow> findall cs)"
  by pat_completeness auto
termination
  by (relation "measure length") (auto dest: url_match_shorter)

section \<open>\<^verbatim>\<open>extract_links\<close>\<close>

text \<open>
  The list \<open>links\<close> grows at its end: \<^verbatim>\<open>links.extend\<close> and \<^verbatim>\<open>links.append\<close>.  Each loop
  of the function is a recursion that takes the list and returns it updated.  A Python
  string is true when it is not empty.
\<close>

fun attachment_links :: "attachment list \<Rightarrow> string list \<Rightarrow> string list" where
  "attachment_links [] links = links"
| "attachment_links (att # atts) links =
     (let url = get_default (att_url att) ''''
      in attachment_links atts (if url \<noteq> '''' then links @ [url] else links))"

definition embed_links :: "embed \<Rightarrow> string list \<Rightarrow> string list" where
  "embed_links e links =
     (let links1 = (case embed_url e of
                      Some u \<Rightarrow> if u \<noteq> '''' then links @ [u] else links
                    | None \<Rightarrow> links);
          links2 = (case image e of
                      Some im \<Rightarrow> (case media_url im of Some u \<Rightarrow> links1 @ [u] | None \<Rightarrow> links1)
                    | None \<Rightarrow> links1);
          links3 = (case thumbnail e of
                      Some th \<Rightarrow> (case media_url th of Some u \<Rightarrow> links2 @ [u] | None \<Rightarrow> links2)
                    | None \<Rightarrow> links2)
      in (case video e of
            Some vi \<Rightarrow> (case media_url vi of Some u \<Rightarrow> links3 @ [u] | None \<Rightarrow> links3)
          | None \<Rightarrow> links3))"

fun embeds_links :: "embed list \<Rightarrow> string list \<Rightarrow> string list" where
  "embeds_links [] links = links"
| "embeds_links (e # es) links = embeds_links es (embed_links e links)"

fun collect_links :: "message list \<Rightarrow> string list \<Rightarrow> string list" where
  "collect_links [] links = links"
| "collect_links (m # ms) links =
     (let found_urls = findall (get_default (content m) '''');
          links1 = links @ found_urls;
          links2 = attachment_links (get_default (attachments m) []) links1;
          links3 = embeds_links (get_default (embeds m) []) links2
      in collect_links ms links3)"

text \<open>The last loop: \<open>seen\<close> is the set, \<open>unique_links\<close> the list returned.\<close>

fun unique_loop :: "string list \<Rightarrow> string set \<Rightarrow> string list \<Rightarrow> string list" where
  "unique_loop [] seen unique_links = unique_links"
| "unique_loop (link # links) seen unique_links =
     (if link \<notin> seen then unique_loop links (insert link seen) (unique_links @ [link])
      else unique_loop links seen unique_links)"

definition extract_links :: "message list \<Rightarrow> string list" where
  "extract_links messages = unique_loop (collect_links messages []) {} []"

section \<open>\<^verbatim>\<open>format_message\<close>\<close>

text \<open>\<^verbatim>\<open>str(n)\<close> for a length and for a status code.\<close>

fun str_nat :: "nat \<Rightarrow> string" where
  "str_nat n =
     (if n < 10 then [''0123456789'' ! n]
      else str_nat (n div 10) @ [''0123456789'' ! (n mod 10)])"

declare str_nat.simps [simp del]

definition str_int :: "int \<Rightarrow> string" where
  "str_int i = (if i < 0 then ''-'' @ str_nat (nat (- i)) else str_nat (nat i))"

text \<open>\<^verbatim>\<open>timestamp.replace('Z', '+00:00')\<close>: every \<^verbatim>\<open>Z\<close> of the string is replaced.\<close>

fun replace_Z :: "string \<Rightarrow> string" where
  "replace_Z [] = []"
| "replace_Z (c # cs) = (if c = CHR ''Z'' then ''+00:00'' @ replace_Z cs else c # replace_Z cs)"

text \<open>
  What the script calls and does not define is a parameter of the model:
  \<^item> \<open>fromisoformat\<close> and \<open>strftime\<close> are \<^verbatim>\<open>datetime.fromisoformat\<close> and
    \<^verbatim>\<open>datetime.strftime\<close> of the standard library, over a type \<open>'dt\<close> of parsed
    times; \<open>None\<close> is a raised exception;
  \<^item> \<open>py_int\<close> is \<^verbatim>\<open>int(text)\<close>, \<open>None\<close> its ValueError;
  \<^item> \<open>api\<close> is \<^verbatim>\<open>requests.get\<close> against the remote service, a transition of the
    service's state \<open>'s\<close>; \<open>Inl e\<close> is a RequestException with text \<open>e\<close>, and the
    \<open>json\<close> of a reply is its body as \<^verbatim>\<open>response.json()\<close> decodes it, a list of messages;
  \<^item> \<open>open_w\<close> is \<^verbatim>\<open>open(path, 'w')\<close>: \<open>Some e\<close> is an IOError with text \<open>e\<close>, \<open>None\<close>
    an opened file, whose writes then succeed.
\<close>

record request =
  url :: string
  authorization :: string
  req_limit :: int
  before :: "string option"

record response =
  status_code :: int
  json :: "message list"
  resp_text :: string

type_synonym exchange = "request \<times> (string + response)"

record ('s, 'dt) library =
  fromisoformat :: "string \<Rightarrow> 'dt option"
  strftime :: "'dt \<Rightarrow> string \<Rightarrow> string option"
  py_int :: "string \<Rightarrow> int option"
  api :: "'s \<Rightarrow> request \<Rightarrow> (string + response) \<times> 's"
  open_w :: "string \<Rightarrow> string option"

text \<open>
  The \<^verbatim>\<open>try\<close> block of \<^verbatim>\<open>format_message\<close> with its bare \<^verbatim>\<open>except\<close>: whatever is raised
  inside, \<open>formatted_time\<close> is the timestamp as it came.
\<close>

definition format_time :: "('s, 'dt) library \<Rightarrow> string \<Rightarrow> string" where
  "format_time lib stamp =
     (case fromisoformat lib (replace_Z stamp) of
        None \<Rightarrow> stamp
      | Some dt \<Rightarrow>
          (case strftime lib dt ''%Y-%m-%d %H:%M:%S UTC'' of
             None \<Rightarrow> stamp
           | Some formatted_time \<Rightarrow> formatted_time))"

fun attachment_lines :: "attachment list \<Rightarrow> string \<Rightarrow> string" where
  "attachment_lines [] formatted = formatted"
| "attachment_lines (att # atts) formatted =
     attachment_lines atts
       (formatted @ ''\<newline>    - '' @ get_default (att_filename att) ''file'' @ '': ''
          @ get_default (att_url att) '''')"

definition format_message :: "('s, 'dt) library \<Rightarrow> message \<Rightarrow> string" where
  "format_message lib message =
     (let name = get_default (username (get_default (author message) \<lparr>username = None\<rparr>))
                   ''Unknown'';
          stamp = get_default (timestamp message) '''';
          body = get_default (content message) '''';
          formatted_time = format_time lib stamp;
          formatted = ''['' @ formatted_time @ ''] '' @ name @ '': '' @ body;
          atts = get_default (attachments message) [];
          formatted1 = (if atts \<noteq> []
                        then attachment_lines atts (formatted @ ''\<newline>  Attachments:'')
                        else formatted);
          embs = get_default (embeds message) []
      in if embs \<noteq> []
         then formatted1 @ ''\<newline>  Embeds: '' @ str_nat (length embs) @ '' embed(s)''
         else formatted1)"

section \<open>\<^verbatim>\<open>fetch_messages\<close>\<close>

text \<open>
  What the script acts on: the remote service, the console and the file system.  \<open>log\<close>
  records every request the script has sent together with what came back; the script
  does not read it.
\<close>

record 's world =
  server :: 's
  log :: "exchange list"
  stdout :: "string list"
  files :: "string \<rightharpoonup> string"

definition print :: "string \<Rightarrow> 's world \<Rightarrow> 's world" where
  "print line w = w\<lparr>stdout := stdout w @ [line]\<rparr>"

text \<open>\<^verbatim>\<open>sys.exit(code)\<close> raises SystemExit, which nothing in the script catches.\<close>

datatype error = SystemExit int

text \<open>
  \<^verbatim>\<open>limit\<close> is an integer, or \<^verbatim>\<open>float('inf')\<close> when \<^verbatim>\<open>main\<close> was given \<^verbatim>\<open>all\<close>.  The three
  operations the loop applies to \<^verbatim>\<open>remaining\<close>: \<^verbatim>\<open>remaining > 0\<close>,
  \<^verbatim>\<open>min(remaining, 100)\<close> and \<^verbatim>\<open>remaining -= len(messages)\<close>.
\<close>

datatype limit = Bounded int | Unbounded

fun positive :: "limit \<Rightarrow> bool" where
  "positive (Bounded n) = (n > 0)"
| "positive Unbounded = True"

fun min_100 :: "limit \<Rightarrow> int" where
  "min_100 (Bounded n) = min n 100"
| "min_100 Unbounded = 100"

fun minus_len :: "limit \<Rightarrow> nat \<Rightarrow> limit" where
  "minus_len (Bounded n) k = Bounded (n - int k)"
| "minus_len Unbounded k = Unbounded"

record fetch_vars =
  all_messages :: "message list"
  remaining :: limit
  last_message_id :: "string option"

text \<open>
  One test of the \<^verbatim>\<open>while\<close> condition followed by one run of the loop body.  \<open>Inl\<close> is
  the end of the function (the condition is false, a \<^verbatim>\<open>break\<close> or a \<^verbatim>\<open>sys.exit\<close>), with
  what it returns or raises; \<open>Inr\<close> is the state in which the loop goes round again.
\<close>

definition fetch_step ::
  "('s, 'dt) library \<Rightarrow> string \<Rightarrow> string \<Rightarrow> fetch_vars \<times> 's world
     \<Rightarrow> ((error + message list) \<times> 's world) + (fetch_vars \<times> 's world)" where
  "fetch_step lib u token st =
     (let (v, w) = st in
      if \<not> positive (remaining v) then Inl (Inr (all_messages v), w)
      else
        let fetch_limit = min_100 (remaining v);
            rq = \<lparr>url = u, authorization = token, req_limit = fetch_limit,
                  before = (case last_message_id v of
                              Some i \<Rightarrow> if i \<noteq> '''' then Some i else None
                            | None \<Rightarrow> None)\<rparr>;
            (reply, srv) = api lib (server w) rq;
            w1 = w\<lparr>server := srv, log := log w @ [(rq, reply)]\<rparr>
        in case reply of
             Inl e \<Rightarrow> Inl (Inl (SystemExit 1), print (''Network error: '' @ e) w1)
           | Inr response \<Rightarrow>
               if status_code response = 200 then
                 (let messages = json response in
                  if messages = [] then
                    Inl (Inr (all_messages v), print ''No more messages to fetch'' w1)
                  else
                    let v1 = \<lparr>all_messages = all_messages v @ messages,
                              remaining = minus_len (remaining v) (length messages),
                              last_message_id = Some (msg_id (last messages))\<rparr>;
                        w2 = print (''Fetched '' @ str_nat (length (all_messages v1))
                                      @ '' messages so far...'') w1
                    in if int (length messages) < fetch_limit
                       then Inl (Inr (all_messages v1), w2)
                       else Inr (v1, w2))
               else if status_code response = 401 then
                 Inl (Inl (SystemExit 1),
                      print ''Please check your DISCORD_TOKEN in the .env file''
                        (print ''Error: Invalid Discord token'' w1))
               else if status_code response = 403 then
                 Inl (Inl (SystemExit 1),
                      print ''Error: Access forbidden - you don't have permission to access this channel'' w1)
               else if status_code response = 404 then
                 Inl (Inl (SystemExit 1),
                      print ''Error: Channel not found - please check the channel ID'' w1)
               else
                 Inl (Inl (SystemExit 1),
                      print (resp_text response)
                        (print (''Error: HTTP '' @ str_int (status_code response)) w1)))"

text \<open>
  The \<^verbatim>\<open>while\<close> loop.  With an unbounded limit and a service that never runs out of
  messages it does not end, so the loop is a partial function: \<open>None\<close> is a run that does
  not return.
\<close>

partial_function (option) fetch_loop ::
  "('s, 'dt) library \<Rightarrow> string \<Rightarrow> string \<Rightarrow> fetch_vars \<times> 's world
     \<Rightarrow> ((error + message list) \<times> 's world) option" where
  "fetch_loop lib u token st =
     (case fetch_step lib u token st of
        Inl fin \<Rightarrow> Some fin
      | Inr st' \<Rightarrow> fetch_loop lib u token st')"

definition fetch_messages ::
  "('s, 'dt) library \<Rightarrow> string \<Rightarrow> string \<Rightarrow> limit \<Rightarrow> 's world
     \<Rightarrow> ((error + message list) \<times> 's world) option" where
  "fetch_messages lib channel_id token lim w =
     (let u = ''https://discord.com/api/v10/channels/'' @ channel_id @ ''/messages'';
          v = \<lparr>all_messages = [], remaining = lim, last_message_id = None\<rparr>
      in fetch_loop lib u token
           (v, print (''Fetching messages from channel '' @ channel_id @ ''...'') w))"

section \<open>\<^verbatim>\<open>save_messages\<close> and \<^verbatim>\<open>save_links\<close>\<close>

text \<open>
  \<open>f\<close> is the text written to the open file so far; each \<^verbatim>\<open>f.write\<close> adds to its end.
  \<open>now\<close> is the text \<^verbatim>\<open>datetime.now().strftime('%Y-%m-%d %H:%M:%S')\<close> gives at the call.
\<close>

fun write_messages :: "('s, 'dt) library \<Rightarrow> message list \<Rightarrow> string \<Rightarrow> string" where
  "write_messages lib [] f = f"
| "write_messages lib (m # ms) f =
     write_messages lib ms (f @ format_message lib m @ ''\<newline>\<newline>'')"

definition save_messages ::
  "('s, 'dt) library \<Rightarrow> string \<Rightarrow> message list \<Rightarrow> string \<Rightarrow> 's world
     \<Rightarrow> (error + unit) \<times> 's world" where
  "save_messages lib now messages output_file w =
     (case open_w lib output_file of
        Some e \<Rightarrow> (Inl (SystemExit 1), print (''Error saving file: '' @ e) w)
      | None \<Rightarrow>
          let f1 = ''Discord Messages Export\<newline>'';
              f2 = f1 @ ''Total messages: '' @ str_nat (length messages) @ ''\<newline>'';
              f3 = f2 @ ''Exported on: '' @ now @ ''\<newline>'';
              f4 = f3 @ replicate 80 (CHR ''='') @ ''\<newline>\<newline>'';
              f5 = write_messages lib (rev messages) f4
          in (Inr (),
              print (''\<newline>Successfully saved '' @ str_nat (length messages)
                       @ '' messages to '' @ output_file)
                (w\<lparr>files := (files w)(output_file \<mapsto> f5)\<rparr>)))"

fun write_links :: "string list \<Rightarrow> string \<Rightarrow> string" where
  "write_links [] f = f"
| "write_links (link # links) f = write_links links (f @ link @ ''\<newline>'')"

definition save_links ::
  "('s, 'dt) library \<Rightarrow> string \<Rightarrow> string list \<Rightarrow> string \<Rightarrow> 's world
     \<Rightarrow> (error + unit) \<times> 's world" where
  "save_links lib now links output_file w =
     (case open_w lib output_file of
        Some e \<Rightarrow> (Inl (SystemExit 1), print (''Error saving links file: '' @ e) w)
      | None \<Rightarrow>
          let f1 = ''Extracted Links\<newline>'';
              f2 = f1 @ ''Total links: '' @ str_nat (length links) @ ''\<newline>'';
              f3 = f2 @ ''Exported on: '' @ now @ ''\<newline>'';
              f4 = f3 @ replicate 80 (CHR ''='') @ ''\<newline>\<newline>'';
              f5 = write_links links f4
          in (Inr (),
              print (''Successfully saved '' @ str_nat (length links) @ '' links to ''
                       @ output_file)
                (w\<lparr>files := (files w)(output_file \<mapsto> f5)\<rparr>)))"

section \<open>\<^verbatim>\<open>load_environment\<close> and \<^verbatim>\<open>main\<close>\<close>

text \<open>
  The two variables \<^verbatim>\<open>os.getenv\<close> reads after \<^verbatim>\<open>load_dotenv()\<close>, and the three
  arguments \<^verbatim>\<open>argparse\<close> hands over.
\<close>

record environ =
  DISCORD_TOKEN :: "string option"
  CHANNEL_ID :: "string option"

record args =
  arg_limit :: string
  arg_output :: string
  arg_extract_links :: bool

definition load_environment :: "environ \<Rightarrow> 's world \<Rightarrow> (error + string \<times> string) \<times> 's world" where
  "load_environment env w =
     (let token = DISCORD_TOKEN env; channel_id = CHANNEL_ID env in
      if token = None \<or> token = Some '''' then
        (Inl (SystemExit 1),
         print ''See README.md for instructions''
           (print ''Please create a .env file with your Discord token''
              (print ''Error: DISCORD_TOKEN not found in .env file'' w)))
      else if channel_id = None \<or> channel_id = Some '''' then
        (Inl (SystemExit 1),
         print ''See README.md for instructions''
           (print ''Please add CHANNEL_ID to your .env file''
              (print ''Error: CHANNEL_ID not found in .env file'' w)))
      else (Inr (the token, the channel_id), w))"

text \<open>\<^verbatim>\<open>str.lower()\<close> on the ASCII letters; \<^verbatim>\<open>str.endswith\<close>.\<close>

definition lower :: "string \<Rightarrow> string" where
  "lower s = map (\<lambda>c. if CHR ''A'' \<le> c \<and> c \<le> CHR ''Z'' then char_of (of_char c + (32::nat)) else c) s"

definition endswith :: "string \<Rightarrow> string \<Rightarrow> bool" where
  "endswith s suffix \<longleftrightarrow> length suffix \<le> length s \<and> drop (length s - length suffix) s = suffix"

text \<open>
  The part of \<^verbatim>\<open>main\<close> after the fetch: the messages are saved, and the links
  extracted, only when the list of messages is not empty.
\<close>

definition export ::
  "('s, 'dt) library \<Rightarrow> string \<Rightarrow> string \<Rightarrow> args \<Rightarrow> string \<Rightarrow> message list \<Rightarrow> 's world
     \<Rightarrow> (error + unit) \<times> 's world" where
  "export lib now1 now2 a output_file messages w =
     (if messages \<noteq> [] then
        (case save_messages lib now1 messages output_file w of
           (Inl e, w1) \<Rightarrow> (Inl e, w1)
         | (Inr _, w1) \<Rightarrow>
             if arg_extract_links a then
               (let w2 = print ''\<newline>Extracting links...'' w1;
                    links = extract_links messages
                in if links \<noteq> [] then
                     (case save_links lib now2 links ''links.txt'' w2 of
                        (Inl e, w3) \<Rightarrow> (Inl e, w3)
                      | (Inr _, w3) \<Rightarrow> (Inr (), print ''\<newline>Done!'' w3))
                   else (Inr (), print ''\<newline>Done!'' (print ''No links found in messages'' w2)))
             else (Inr (), print ''\<newline>Done!'' w1))
      else (Inr (), print ''\<newline>Done!'' (print ''No messages were fetched'' w)))"

text \<open>
  \<^verbatim>\<open>main\<close>.  \<open>now1\<close> and \<open>now2\<close> are the clock readings of \<^verbatim>\<open>save_messages\<close> and
  \<^verbatim>\<open>save_links\<close>.  The result is \<open>None\<close> when the fetch does not return.  The
  KeyboardInterrupt handler answers a signal from outside and is not modelled.
\<close>

definition main ::
  "('s, 'dt) library \<Rightarrow> environ \<Rightarrow> args \<Rightarrow> string \<Rightarrow> string \<Rightarrow> 's world
     \<Rightarrow> ((error + unit) \<times> 's world) option" where
  "main lib env a now1 now2 w =
     (let w1 = print (replicate 80 (CHR ''=''))
                 (print ''Discord Message Fetcher'' (print (replicate 80 (CHR ''='')) w))
      in case load_environment env w1 of
           (Inl e, w2) \<Rightarrow> Some (Inl e, w2)
         | (Inr (token, channel_id), w2) \<Rightarrow>
             (case (if lower (arg_limit a) = ''all''
                    then Inr (Unbounded, ''All available messages'')
                    else (case py_int lib (arg_limit a) of
                            None \<Rightarrow>
                              Inl (''Error: Invalid limit value '' @ [CHR 0x27] @ arg_limit a
                                     @ [CHR 0x27] @ ''. Use a number or '' @ [CHR 0x27] @ ''all''
                                     @ [CHR 0x27])
                          | Some n \<Rightarrow>
                              if n \<le> 0
                              then Inl ''Error: Number of messages must be greater than 0''
                              else Inr (Bounded n, str_int n))) of
                Inl msg \<Rightarrow> Some (Inl (SystemExit 1), print msg w2)
              | Inr (lim, limit_display) \<Rightarrow>
                  let output_file = (if \<not> endswith (arg_output a) ''.txt''
                                     then arg_output a @ ''.txt'' else arg_output a);
                      w3 = print (''Output file: '' @ output_file @ ''\<newline>'')
                             (print (''Messages to fetch: '' @ limit_display)
                                (print (''\<newline>Channel ID: '' @ channel_id) w2))
                  in (case fetch_messages lib channel_id token lim w3 of
                        None \<Rightarrow> None
                      | Some (Inl e, w4) \<Rightarrow> Some (Inl e, w4)
                      | Some (Inr messages, w4) \<Rightarrow>
                          Some (export lib now1 now2 a output_file messages w4))))"

section \<open>Notions used to state the properties\<close>

text \<open>
  The characters one iteration of the group can start with: the union of the four
  character classes of the pattern.
\<close>

definition url_char :: "char \<Rightarrow> bool" where
  "url_char c \<longleftrightarrow> letter c \<or> digit c \<or> sym_class c \<or> punct_class c"

text \<open>
  The specification's reading of the pattern, in its own words: letters, digits, the
  twelve symbols \<^verbatim>\<open>$ - _ @ . & + ! * ( ) ,\<close> and \<^verbatim>\<open>%XX\<close> pairs of two hex digits.
\<close>

definition spec_url_char :: "char \<Rightarrow> bool" where
  "spec_url_char c \<longleftrightarrow> letter c \<or> digit c \<or> c \<in> set ''$-_@.&+!*(),''"

fun spec_url_body :: "string \<Rightarrow> bool" where
  "spec_url_body [] = True"
| "spec_url_body (c # cs) =
     (if spec_url_char c then spec_url_body cs
      else (case cs of
              h1 # h2 # rest \<Rightarrow> c = CHR ''%'' \<and> hexdigit h1 \<and> hexdigit h2 \<and> spec_url_body rest
            | _ \<Rightarrow> False))"

text \<open>
  What one of the sub-objects \<^verbatim>\<open>image\<close>, \<^verbatim>\<open>thumbnail\<close>, \<^verbatim>\<open>video\<close> of an embed adds to the
  links: its \<^verbatim>\<open>url\<close>, when the sub-object and the key are present.
\<close>

definition media_link :: "media option \<Rightarrow> string list" where
  "media_link m =
     (case m of None \<Rightarrow> [] | Some r \<Rightarrow> (case media_url r of None \<Rightarrow> [] | Some u \<Rightarrow> [u]))"

text \<open>The links of one message, in the order the loop body of \<^verbatim>\<open>extract_links\<close> adds them.\<close>

definition message_links :: "message \<Rightarrow> string list" where
  "message_links m =
     findall (get_default (content m) '''')
     @ filter (\<lambda>u. u \<noteq> '''') (map (\<lambda>a. get_default (att_url a) '''') (get_default (attachments m) []))
     @ concat (map (\<lambda>e. (case embed_url e of None \<Rightarrow> [] | Some u \<Rightarrow> if u \<noteq> '''' then [u] else [])
                          @ media_link (image e) @ media_link (thumbnail e) @ media_link (video e))
                 (get_default (embeds m) []))"

text \<open>
  The request the loop body sends when its variables are \<open>v\<close>; the messages of a
  reply; the variables after a page that was not empty.
\<close>

definition request_of :: "string \<Rightarrow> string \<Rightarrow> fetch_vars \<Rightarrow> request" where
  "request_of u token v =
     \<lparr>url = u, authorization = token, req_limit = min_100 (remaining v),
      before = (case last_message_id v of
                  Some i \<Rightarrow> if i \<noteq> '''' then Some i else None
                | None \<Rightarrow> None)\<rparr>"

definition page :: "exchange \<Rightarrow> message list" where
  "page x = (case snd x of Inl e \<Rightarrow> [] | Inr r \<Rightarrow> json r)"

definition advance :: "fetch_vars \<Rightarrow> exchange \<Rightarrow> fetch_vars" where
  "advance v x =
     \<lparr>all_messages = all_messages v @ page x,
      remaining = minus_len (remaining v) (length (page x)),
      last_message_id = Some (msg_id (last (page x)))\<rparr>"

text \<open>What the script prints before \<^verbatim>\<open>sys.exit(1)\<close> for a reply that is not a 200.\<close>

definition error_lines :: "string + response \<Rightarrow> string list" where
  "error_lines reply =
     (case reply of
        Inl e \<Rightarrow> [''Network error: '' @ e]
      | Inr r \<Rightarrow>
          if status_code r = 401 then
            [''Error: Invalid Discord token'', ''Please check your DISCORD_TOKEN in the .env file'']
          else if status_code r = 403 then
            [''Error: Access forbidden - you don't have permission to access this channel'']
          else if status_code r = 404 then
            [''Error: Channel not found - please check the channel ID'']
          else [''Error: HTTP '' @ str_int (status_code r), resp_text r])"

definition failed :: "string + response \<Rightarrow> bool" where
  "failed reply = (case reply of Inl e \<Rightarrow> True | Inr r \<Rightarrow> status_code r \<noteq> 200)"

text \<open>
  A complete run of the loop, read off the exchanges it made: \<open>run u token v xs res\<close>
  holds when the loop, started with the variables \<open>v\<close>, makes the exchanges \<open>xs\<close> in this
  order and ends with \<open>res\<close>.
\<close>

fun run :: "string \<Rightarrow> string \<Rightarrow> fetch_vars \<Rightarrow> exchange list \<Rightarrow> error + message list \<Rightarrow> bool" where
  "run u token v [] res = (\<not> positive (remaining v) \<and> res = Inr (all_messages v))"
| "run u token v (x # xs) res =
     (positive (remaining v) \<and> fst x = request_of u token v \<and>
      (if failed (snd x) then xs = [] \<and> res = Inl (SystemExit 1)
       else if page x = [] then xs = [] \<and> res = Inr (all_messages v)
       else if int (length (page x)) < min_100 (remaining v)
         then xs = [] \<and> res = Inr (all_messages (advance v x))
       else run u token (advance v x) xs res))"

text \<open>The sizes and cursors of the requests a run has sent, in the order sent.\<close>

definition cursors :: "((error + message list) \<times> 's world) option \<Rightarrow> (int \<times> string option) list" where
  "cursors out =
     (case out of
        None \<Rightarrow> []
      | Some (res, w) \<Rightarrow> map (\<lambda>x. (req_limit (fst x), before (fst x))) (log w))"

text \<open>
  Services and surroundings for the examples.  \<open>demo_lib reply\<close> answers a request \<open>rq\<close>
  with \<open>reply rq\<close>, whatever was asked before; every file opens; no timestamp parses;
  \<^verbatim>\<open>int\<close> knows the text \<^verbatim>\<open>100\<close>.  \<open>pages_of k\<close> answers with \<open>k\<close> messages whatever the
  request asks for; \<open>status s\<close> answers with the status \<open>s\<close> and no messages.
\<close>

definition demo_message :: "string \<Rightarrow> message" where
  "demo_message i =
     \<lparr>msg_id = i, author = Some \<lparr>username = Some ''ann''\<rparr>,
      timestamp = Some ''2024-05-01T10:00:00Z'', content = Some ''hi'',
      attachments = Some [], embeds = Some []\<rparr>"

definition demo_lib :: "(request \<Rightarrow> string + response) \<Rightarrow> (unit, unit) library" where
  "demo_lib reply =
     \<lparr>fromisoformat = (\<lambda>s. None), strftime = (\<lambda>d p. None),
      py_int = (\<lambda>s. if s = ''100'' then Some 100 else None),
      api = (\<lambda>s rq. (reply rq, s)), open_w = (\<lambda>p. None)\<rparr>"

definition pages_of :: "nat \<Rightarrow> request \<Rightarrow> string + response" where
  "pages_of k rq = Inr \<lparr>status_code = 200, json = replicate k (demo_message ''7''), resp_text = ''''\<rparr>"

definition status :: "int \<Rightarrow> request \<Rightarrow> string + response" where
  "status s rq = Inr \<lparr>status_code = s, json = [], resp_text = ''denied''\<rparr>"

definition demo_world :: "unit world" where
  "demo_world = \<lparr>server = (), log = [], stdout = [], files = Map.empty\<rparr>"

text \<open>The number of messages a run has returned, when it returned any.\<close>

definition returned :: "((error + message list) \<times> 's world) option \<Rightarrow> nat option" where
  "returned out =
     (case out of
        None \<Rightarrow> None
      | Some (res, w) \<Rightarrow> (case res of Inl e \<Rightarrow> None | Inr msgs \<Rightarrow> Some (length msgs)))"

text \<open>The content of a file after a run of \<^verbatim>\<open>main\<close>, and how the run ended.\<close>

definition file_after :: "string \<Rightarrow> ((error + unit) \<times> 's world) option \<Rightarrow> string option" where
  "file_after path out = (case out of None \<Rightarrow> None | Some (res, w) \<Rightarrow> files w path)"

definition ended :: "((error + unit) \<times> 's world) option \<Rightarrow> (error + unit) option" where
  "ended out = (case out of None \<Rightarrow> None | Some (res, w) \<Rightarrow> Some res)"

definition demo_env :: environ where
  "demo_env = \<lparr>DISCORD_TOKEN = Some ''t'', CHANNEL_ID = Some ''c''\<rparr>"

definition demo_args :: args where
  "demo_args = \<lparr>arg_limit = ''100'', arg_output = ''messages.txt'', arg_extract_links = False\<rparr>"

text \<open>
  A match of the pattern starts at the front of \<open>s\<close>: \<open>s\<close> begins with \<^verbatim>\<open>http://\<close> or
  \<^verbatim>\<open>https://\<close> followed by a character of \<open>url_char\<close>.
\<close>

definition url_start :: "string \<Rightarrow> bool" where
  "url_start s \<longleftrightarrow>
     (case literal ''http://'' s of Some (c # t) \<Rightarrow> url_char c | _ \<Rightarrow> False)
     \<or> (case literal ''https://'' s of Some (c # t) \<Rightarrow> url_char c | _ \<Rightarrow> False)"

text \<open>
  A library for the examples that reads and renders timestamps itself.  \<open>parse_iso\<close>
  accepts the form \<^verbatim>\<open>YYYY-MM-DDTHH:MM:SS\<close>, then an optional fraction of three or six
  digits, then an optional offset \<^verbatim>\<open>+HH:MM\<close> or \<^verbatim>\<open>-HH:MM\<close>, with the fields in their
  ranges, as \<^verbatim>\<open>datetime.fromisoformat\<close> does; \<open>render_utc\<close> is \<^verbatim>\<open>strftime\<close> for the one
  pattern the script uses, the fields of the parsed time zero-padded.  Otherwise the
  library is \<open>demo_lib\<close>.
\<close>

record datetime =
  year :: nat
  month :: nat
  day :: nat
  hour :: nat
  minute :: nat
  second :: nat

fun number :: "string \<Rightarrow> nat \<Rightarrow> nat option" where
  "number [] acc = Some acc"
| "number (c # cs) acc =
     (if digit c then number cs (10 * acc + (of_char c - 48)) else None)"

definition offset_ok :: "string \<Rightarrow> bool" where
  "offset_ok s \<longleftrightarrow>
     s = [] \<or>
     (length s = 6 \<and> (s ! 0 = CHR ''+'' \<or> s ! 0 = CHR ''-'') \<and> s ! 3 = CHR '':''
        \<and> (case (number (take 2 (drop 1 s)) 0, number (drop 4 s) 0) of
              (Some h, Some m) \<Rightarrow> h < 24 \<and> m < 60
            | _ \<Rightarrow> False))"

definition fraction_ok :: "string \<Rightarrow> bool" where
  "fraction_ok s \<longleftrightarrow>
     offset_ok s \<or>
     (case s of
        c # t \<Rightarrow> c = CHR ''.''
          \<and> ((number (take 3 t) 0 \<noteq> None \<and> 3 \<le> length t \<and> offset_ok (drop 3 t))
             \<or> (number (take 6 t) 0 \<noteq> None \<and> 6 \<le> length t \<and> offset_ok (drop 6 t)))
      | [] \<Rightarrow> False)"

definition parse_iso :: "string \<Rightarrow> datetime option" where
  "parse_iso s =
     (if length s < 19 \<or> s ! 4 \<noteq> CHR ''-'' \<or> s ! 7 \<noteq> CHR ''-'' \<or> s ! 10 \<noteq> CHR ''T''
         \<or> s ! 13 \<noteq> CHR '':'' \<or> s ! 16 \<noteq> CHR '':'' \<or> \<not> fraction_ok (drop 19 s)
      then None
      else (case (number (take 4 s) 0, number (take 2 (drop 5 s)) 0,
                  number (take 2 (drop 8 s)) 0, number (take 2 (drop 11 s)) 0,
                  number (take 2 (drop 14 s)) 0, number (take 2 (drop 17 s)) 0) of
              (Some y, Some mo, Some d, Some h, Some mi, Some se) \<Rightarrow>
                if 1 \<le> y \<and> 1 \<le> mo \<and> mo \<le> 12 \<and> 1 \<le> d \<and> d \<le> 31 \<and> h < 24 \<and> mi < 60 \<and> se < 60
                then Some \<lparr>year = y, month = mo, day = d, hour = h, minute = mi, second = se\<rparr>
                else None
            | _ \<Rightarrow> None))"

definition pad :: "nat \<Rightarrow> nat \<Rightarrow> string" where
  "pad width n = replicate (width - length (str_nat n)) (CHR ''0'') @ str_nat n"

definition render_utc :: "datetime \<Rightarrow> string \<Rightarrow> string option" where
  "render_utc dt pattern =
     (if pattern = ''%Y-%m-%d %H:%M:%S UTC''
      then Some (pad 4 (year dt) @ ''-'' @ pad 2 (month dt) @ ''-'' @ pad 2 (day dt) @ '' ''
                 @ pad 2 (hour dt) @ '':'' @ pad 2 (minute dt) @ '':'' @ pad 2 (second dt)
                 @ '' UTC'')
      else None)"

definition iso_lib :: "(unit, datetime) library" where
  "iso_lib =
     \<lparr>fromisoformat = parse_iso, strftime = render_utc,
      py_int = (\<lambda>s. if s = ''100'' then Some 100 else None),
      api = (\<lambda>s rq. (Inr \<lparr>status_code = 200, json = [], resp_text = ''''\<rparr>, s)),
      open_w = (\<lambda>p. None)\<rparr>"

text \<open>
  The \<^verbatim>\<open>while\<close> loop run for at most \<open>k\<close> rounds: \<open>Inl\<close> when the function has ended
  within them, with what it returned or raised, \<open>Inr\<close> the state in which round \<open>k + 1\<close>
  starts.  \<open>fetch_rounds\<close> is \<open>fetch_messages\<close> cut off in this way, and \<open>sent\<close> is the log
  of the world reached: every request the run has made up to there.  A run that does
  not end has a value for every \<open>k\<close>, so each of its requests is in \<open>sent\<close> from some
  \<open>k\<close> on.
\<close>

fun rounds ::
  "('s, 'dt) library \<Rightarrow> string \<Rightarrow> string \<Rightarrow> nat \<Rightarrow> fetch_vars \<times> 's world
     \<Rightarrow> ((error + message list) \<times> 's world) + (fetch_vars \<times> 's world)" where
  "rounds lib u token 0 st = Inr st"
| "rounds lib u token (Suc k) st =
     (case fetch_step lib u token st of
        Inl fin \<Rightarrow> Inl fin
      | Inr st' \<Rightarrow> rounds lib u token k st')"

definition fetch_rounds ::
  "('s, 'dt) library \<Rightarrow> string \<Rightarrow> string \<Rightarrow> limit \<Rightarrow> 's world \<Rightarrow> nat
     \<Rightarrow> ((error + message list) \<times> 's world) + (fetch_vars \<times> 's world)" where
  "fetch_rounds lib channel_id token lim w k =
     rounds lib (''https://discord.com/api/v10/channels/'' @ channel_id @ ''/messages'') token k
       (\<lparr>all_messages = [], remaining = lim, last_message_id = None\<rparr>,
        print (''Fetching messages from channel '' @ channel_id @ ''...'') w)"

definition sent ::
  "((error + message list) \<times> 's world) + (fetch_vars \<times> 's world) \<Rightarrow> exchange list" where
  "sent r = (case r of Inl (res, w) \<Rightarrow> log w | Inr (v, w) \<Rightarrow> log w)"

text \<open>The requests \<open>xs\<close> are those the loop body builds, one after the other, from \<open>v\<close> on.\<close>

fun asked :: "string \<Rightarrow> string \<Rightarrow> fetch_vars \<Rightarrow> exchange list \<Rightarrow> bool" where
  "asked u token v [] = True"
| "asked u token v (x # xs) = (fst x = request_of u token v \<and> asked u token (advance v x) xs)"

text \<open>
  The part of \<^verbatim>\<open>main\<close> before the fetch: the banner, the environment, the limit and the
  name of the output file.  \<open>Inl\<close> is an exit at this stage; \<open>Inr\<close> holds the channel, the
  token, the limit, the output file and the world in which \<open>fetch_messages\<close> is called.
\<close>

definition prologue ::
  "('s, 'dt) library \<Rightarrow> environ \<Rightarrow> args \<Rightarrow> 's world
     \<Rightarrow> (error \<times> 's world) + (string \<times> string \<times> limit \<times> string \<times> 's world)" where
  "prologue lib env a w =
     (let w1 = print (replicate 80 (CHR ''=''))
                 (print ''Discord Message Fetcher'' (print (replicate 80 (CHR ''='')) w))
      in case load_environment env w1 of
           (Inl e, w2) \<Rightarrow> Inl (e, w2)
         | (Inr (token, channel_id), w2) \<Rightarrow>
             (case (if lower (arg_limit a) = ''all''
                    then Inr (Unbounded, ''All available messages'')
                    else (case py_int lib (arg_limit a) of
                            None \<Rightarrow>
                              Inl (''Error: Invalid limit value '' @ [CHR 0x27] @ arg_limit a
                                     @ [CHR 0x27] @ ''. Use a number or '' @ [CHR 0x27] @ ''all''
                                     @ [CHR 0x27])
                          | Some n \<Rightarrow>
                              if n \<le> 0
                              then Inl ''Error: Number of messages must be greater than 0''
                              else Inr (Bounded n, str_int n))) of
                Inl msg \<Rightarrow> Inl (SystemExit 1, print msg w2)
              | Inr (lim, limit_display) \<Rightarrow>
                  let output_file = (if \<not> endswith (arg_output a) ''.txt''
                                     then arg_output a @ ''.txt'' else arg_output a);
                      w3 = print (''Output file: '' @ output_file @ ''\<newline>'')
                             (print (''Messages to fetch: '' @ limit_display)
                                (print (''\<newline>Channel ID: '' @ channel_id) w2))
                  in Inr (channel_id, token, lim, output_file, w3)))"

text \<open>
  More services for the examples.  \<open>numbered_page s k\<close> is a page of \<open>k\<close> messages whose
  identifiers count down from \<open>100000 - s\<close>, so no two messages of a channel share one;
  \<open>counting_lib\<close> serves such pages of the size asked for and keeps count of the
  messages served, none so far in \<open>counting_world\<close>; \<open>page_then status\<close> answers the
  request without cursor with a full page and every later one with the status;
  \<open>all_args\<close> asks for all messages.
\<close>

definition numbered_page :: "nat \<Rightarrow> nat \<Rightarrow> message list" where
  "numbered_page s k = map (\<lambda>i. demo_message (str_nat (100000 - s - i))) [0..<k]"

definition counting_lib :: "(nat, unit) library" where
  "counting_lib =
     \<lparr>fromisoformat = (\<lambda>s. None), strftime = (\<lambda>d p. None),
      py_int = (\<lambda>s. if s = ''100'' then Some 100 else None),
      api = (\<lambda>s rq. (Inr \<lparr>status_code = 200, json = numbered_page s (nat (req_limit rq)),
                             resp_text = ''''\<rparr>,
                       s + nat (req_limit rq))),
      open_w = (\<lambda>p. None)\<rparr>"

definition counting_world :: "nat world" where
  "counting_world = \<lparr>server = 0, log = [], stdout = [], files = Map.empty\<rparr>"

definition page_then :: "int \<Rightarrow> request \<Rightarrow> string + response" where
  "page_then s rq =
     (if before rq = None
      then Inr \<lparr>status_code = 200, json = numbered_page 0 (nat (req_limit rq)), resp_text = ''''\<rparr>
      else Inr \<lparr>status_code = s, json = [], resp_text = ''denied''\<rparr>)"

definition all_args :: args where
  "all_args = \<lparr>arg_limit = ''all'', arg_output = ''messages.txt'', arg_extract_links = False\<rparr>"

section \<open>Properties\<close>

subsection \<open>The URL pattern\<close>

lemma url_char_range:
  "url_char c \<longleftrightarrow> (CHR ''a'' \<le> c \<and> c \<le> CHR ''z'') \<or> c = CHR ''!'' \<or> (CHR ''$'' \<le> c \<and> c \<le> CHR ''_'')"
  unfolding url_char_def letter_def digit_def sym_class_def punct_class_def
  by (auto simp: less_eq_char_def)

lemma url_group_char: "url_group (c # cs) = (if url_char c then Some cs else None)"
  by (auto simp: url_char_def sym_class_def less_eq_char_def split: list.splits)

lemma url_run_dropWhile: "url_run s = dropWhile url_char s"
proof (induction s)
  case Nil
  show ?case by (simp add: url_run.simps [of "[]"])
next
  case (Cons c cs)
  then show ?case by (simp add: url_run.simps [of "c # cs"] url_group_char del: url_group.simps)
qed

lemma literal_Some_iff: "literal p s = Some r \<longleftrightarrow> s = p @ r"
proof
  show "literal p s = Some r \<Longrightarrow> s = p @ r" by (rule literal_append)
  show "s = p @ r \<Longrightarrow> literal p s = Some r"
    by (induction p arbitrary: s) auto
qed

lemma url_tail_eq:
  "url_tail s = (case literal ''://'' s of None \<Rightarrow> None
     | Some r \<Rightarrow> if takeWhile url_char r = [] then None else Some (dropWhile url_char r))"
proof (cases "literal ''://'' s")
  case None
  then show ?thesis by (simp add: url_tail_def)
next
  case (Some r)
  then show ?thesis
    by (cases r) (simp_all add: url_tail_def url_run_dropWhile url_group_char del: url_group.simps(2))
qed

lemma span_body:
  assumes "list_all P body" and "rest = [] \<or> \<not> P (hd rest)"
  shows "takeWhile P (body @ rest) = body" and "dropWhile P (body @ rest) = rest"
proof -
  have t: "takeWhile P rest = []" using assms(2) by (cases rest) auto
  have d: "dropWhile P rest = rest" using assms(2) by (cases rest) auto
  from assms(1) have a: "\<forall>x\<in>set body. P x" by (simp add: list_all_iff)
  from a t show "takeWhile P (body @ rest) = body" by (simp add: takeWhile_append2)
  from a d show "dropWhile P (body @ rest) = rest" by (simp add: dropWhile_append2)
qed

lemma url_tail_Some:
  "url_tail s = Some rest \<longleftrightarrow>
     (\<exists>body. s = ''://'' @ body @ rest \<and> body \<noteq> [] \<and> list_all url_char body
        \<and> (rest = [] \<or> \<not> url_char (hd rest)))"
proof
  assume "url_tail s = Some rest"
  then obtain r where r: "literal ''://'' s = Some r" "takeWhile url_char r \<noteq> []"
      "rest = dropWhile url_char r"
    by (auto simp: url_tail_eq split: option.splits if_splits)
  let ?body = "takeWhile url_char r"
  from r(1) have "s = ''://'' @ r" by (rule literal_append)
  then have "s = ''://'' @ ?body @ rest" using r(3) by simp
  moreover have "list_all url_char ?body"
    by (simp add: list_all_iff) (metis set_takeWhileD)
  moreover have "rest = [] \<or> \<not> url_char (hd rest)"
    unfolding r(3) by (metis hd_dropWhile)
  ultimately show "\<exists>body. s = ''://'' @ body @ rest \<and> body \<noteq> [] \<and> list_all url_char body
        \<and> (rest = [] \<or> \<not> url_char (hd rest))"
    using r(2) by blast
next
  assume "\<exists>body. s = ''://'' @ body @ rest \<and> body \<noteq> [] \<and> list_all url_char body
        \<and> (rest = [] \<or> \<not> url_char (hd rest))"
  then obtain body where b: "s = ''://'' @ body @ rest" "body \<noteq> []" "list_all url_char body"
      "rest = [] \<or> \<not> url_char (hd rest)"
    by blast
  from b(1) have "literal ''://'' s = Some (body @ rest)"
    by (simp only: literal_Some_iff)
  then show "url_tail s = Some rest"
    using span_body [OF b(3) b(4)] b(2) by (simp add: url_tail_eq)
qed

lemma url_tail_colon: "url_tail s = Some rest \<Longrightarrow> \<exists>t. s = CHR '':'' # t"
  by (auto simp: url_tail_Some)

lemma url_match_Some:
  "url_match s = Some rest \<longleftrightarrow>
     (\<exists>body. (s = ''http://'' @ body @ rest \<or> s = ''https://'' @ body @ rest) \<and> body \<noteq> []
        \<and> list_all url_char body \<and> (rest = [] \<or> \<not> url_char (hd rest)))"
proof (cases "literal ''http'' s")
  case None
  then have "\<And>r. s \<noteq> ''http'' @ r" by (metis literal_Some_iff option.distinct(1))
  then have "\<And>b. s \<noteq> ''http://'' @ b \<and> s \<noteq> ''https://'' @ b" by auto
  then show ?thesis using None by (simp add: url_match_def)
next
  case (Some r)
  then have s: "s = ''http'' @ r" by (rule literal_append)
  show ?thesis
  proof (cases "\<exists>r'. r = CHR ''s'' # r'")
    case True
    then obtain r' where r': "r = CHR ''s'' # r'" by blast
    have n: "url_tail r = None" using url_tail_colon [of r] r' by (cases "url_tail r") auto
    have "url_match s = url_tail r'"
      using Some r' n by (simp add: url_match_def split: option.splits)
    then show ?thesis unfolding s r' by (simp add: url_tail_Some)
  next
    case False
    then have "url_match s = url_tail r"
      using Some by (auto simp: url_match_def split: list.splits)
    moreover from False have "\<And>b. r \<noteq> ''s://'' @ b" by auto
    ultimately show ?thesis unfolding s by (simp add: url_tail_Some)
  qed
qed

lemma findall_sound:
  "u \<in> set (findall s) \<Longrightarrow>
     \<exists>pre body post. s = pre @ u @ post
        \<and> (u = ''http://'' @ body \<or> u = ''https://'' @ body) \<and> body \<noteq> []
        \<and> list_all url_char body \<and> (post = [] \<or> \<not> url_char (hd post))"
proof (induction s rule: findall.induct)
  case 1
  then show ?case by simp
next
  case (2 c cs)
  show ?case
  proof (cases "url_match (c # cs)")
    case None
    with 2 obtain pre body post where "cs = pre @ u @ post"
        "(u = ''http://'' @ body \<or> u = ''https://'' @ body) \<and> body \<noteq> []
          \<and> list_all url_char body \<and> (post = [] \<or> \<not> url_char (hd post))"
      by auto
    then have "c # cs = (c # pre) @ u @ post" by simp
    then show ?thesis using \<open>(u = ''http://'' @ body \<or> u = ''https://'' @ body) \<and> _\<close> by blast
  next
    case (Some rest)
    then obtain body where b: "c # cs = ''http://'' @ body @ rest \<or> c # cs = ''https://'' @ body @ rest"
        "body \<noteq> []" "list_all url_char body" "rest = [] \<or> \<not> url_char (hd rest)"
      unfolding url_match_Some by blast
    define m where "m = take (length (c # cs) - length rest) (c # cs)"
    have fa: "findall (c # cs) = m # findall rest"
      using Some by (simp add: m_def)
    have tk: "\<And>xs. c # cs = xs @ rest \<Longrightarrow> m = xs"
      unfolding m_def by (simp only: length_append add_diff_cancel_right' append_eq_conv_conj take_append) simp
    from b(1) have m: "c # cs = m @ rest \<and> (m = ''http://'' @ body \<or> m = ''https://'' @ body)"
    proof
      assume "c # cs = ''http://'' @ body @ rest"
      then have e: "c # cs = (''http://'' @ body) @ rest" by simp
      from tk [OF e] e show ?thesis by simp
    next
      assume "c # cs = ''https://'' @ body @ rest"
      then have e: "c # cs = (''https://'' @ body) @ rest" by simp
      from tk [OF e] e show ?thesis by simp
    qed
    show ?thesis
    proof (cases "u = m")
      case True
      have "c # cs = [] @ u @ rest" using m True by simp
      then show ?thesis using m b True by blast
    next
      case False
      with 2(3) fa have "u \<in> set (findall rest)" by simp
      from 2(2) [OF Some this] obtain pre body' post where p: "rest = pre @ u @ post"
          "(u = ''http://'' @ body' \<or> u = ''https://'' @ body') \<and> body' \<noteq> []
            \<and> list_all url_char body' \<and> (post = [] \<or> \<not> url_char (hd post))"
        by blast
      have "c # cs = (m @ pre) @ u @ post" using m p(1) by simp
      then show ?thesis using p(2) by blast
    qed
  qed
qed

lemma findall_complete:
  "url_char c \<Longrightarrow> s = pre @ ''http://'' @ c # post \<or> s = pre @ ''https://'' @ c # post
     \<Longrightarrow> findall s \<noteq> []"
proof (induction s arbitrary: pre rule: findall.induct)
  case 1
  then show ?case by simp
next
  case (2 d ds)
  show ?case
  proof (cases "url_match (d # ds)")
    case (Some rest)
    then show ?thesis by simp
  next
    case None
    have "pre \<noteq> []"
    proof
      assume e: "pre = []"
      let ?body = "c # takeWhile url_char post" and ?rest = "dropWhile url_char post"
      have "list_all url_char ?body" using 2(3)
        by (simp add: list_all_iff) (metis set_takeWhileD)
      moreover have "?rest = [] \<or> \<not> url_char (hd ?rest)" by (metis hd_dropWhile)
      moreover have "d # ds = ''http://'' @ ?body @ ?rest \<or> d # ds = ''https://'' @ ?body @ ?rest"
        using 2(4) e by simp
      ultimately have "url_match (d # ds) = Some ?rest"
        unfolding url_match_Some by blast
      with None show False by simp
    qed
    then obtain pre' where "pre = d # pre'" using 2(4) by (cases pre) auto
    with 2(4) have "ds = pre' @ ''http://'' @ c # post \<or> ds = pre' @ ''https://'' @ c # post"
      by auto
    from 2(1) [OF None 2(3) this] show ?thesis using None by simp
  qed
qed

lemma literal_case_iff:
  "(case literal p s of Some (c # t) \<Rightarrow> url_char c | _ \<Rightarrow> False)
     \<longleftrightarrow> (\<exists>c t. url_char c \<and> s = p @ c # t)"
proof (cases "literal p s")
  case None
  then have "\<And>r. s \<noteq> p @ r" by (metis literal_Some_iff option.distinct(1))
  with None show ?thesis by simp
next
  case (Some r)
  then have s: "s = p @ r" by (rule literal_append)
  show ?thesis
  proof (cases r)
    case Nil
    with Some s show ?thesis by simp
  next
    case (Cons c t)
    with Some s show ?thesis by simp
  qed
qed

lemma url_start_iff:
  "url_start s \<longleftrightarrow>
     (\<exists>c t. url_char c \<and> (s = ''http://'' @ c # t \<or> s = ''https://'' @ c # t))"
  unfolding url_start_def literal_case_iff by blast

lemma url_match_None_iff: "url_match s = None \<longleftrightarrow> \<not> url_start s"
proof
  assume n: "url_match s = None"
  show "\<not> url_start s"
  proof
    assume "url_start s"
    then obtain c t where c: "url_char c" "s = ''http://'' @ c # t \<or> s = ''https://'' @ c # t"
      unfolding url_start_iff by blast
    let ?body = "c # takeWhile url_char t" and ?rest = "dropWhile url_char t"
    have "list_all url_char ?body" using c(1)
      by (simp add: list_all_iff) (metis set_takeWhileD)
    moreover have "?rest = [] \<or> \<not> url_char (hd ?rest)" by (metis hd_dropWhile)
    moreover have "s = ''http://'' @ ?body @ ?rest \<or> s = ''https://'' @ ?body @ ?rest"
      using c(2) by simp
    ultimately have "url_match s = Some ?rest" unfolding url_match_Some by blast
    with n show False by simp
  qed
next
  assume n: "\<not> url_start s"
  show "url_match s = None"
  proof (rule ccontr)
    assume "url_match s \<noteq> None"
    then obtain rest where "url_match s = Some rest" by auto
    then obtain body where b: "s = ''http://'' @ body @ rest \<or> s = ''https://'' @ body @ rest"
        "body \<noteq> []" "list_all url_char body"
      unfolding url_match_Some by blast
    from b(2) obtain c cs where cs: "body = c # cs" by (cases body) auto
    with b(3) have "url_char c" by simp
    moreover from b(1) cs have "s = ''http://'' @ c # (cs @ rest) \<or> s = ''https://'' @ c # (cs @ rest)"
      by auto
    ultimately show False using n unfolding url_start_iff by blast
  qed
qed

lemma findall_skip:
  "(\<forall>k<length pre. \<not> url_start (drop k (pre @ t))) \<Longrightarrow> findall (pre @ t) = findall t"
proof (induction pre)
  case Nil
  show ?case by simp
next
  case (Cons c pre)
  from Cons(2) have "\<not> url_start (drop 0 ((c # pre) @ t))" by blast
  then have n: "url_match (c # pre @ t) = None" by (simp add: url_match_None_iff)
  have "\<forall>k<length pre. \<not> url_start (drop k (pre @ t))"
  proof (intro allI impI)
    fix k assume "k < length pre"
    then have "Suc k < length (c # pre)" by simp
    with Cons(2) have "\<not> url_start (drop (Suc k) ((c # pre) @ t))" by blast
    then show "\<not> url_start (drop k (pre @ t))" by simp
  qed
  from Cons(1) [OF this] n show ?case by simp
qed

lemma findall_at_match:
  assumes "u = ''http://'' @ body \<or> u = ''https://'' @ body" and "body \<noteq> []"
    and "list_all url_char body" and "post = [] \<or> \<not> url_char (hd post)"
  shows "findall (u @ post) = u # findall post"
proof -
  from assms(1) obtain c cs where t: "u @ post = c # cs" by (cases "u @ post") auto
  have "url_match (u @ post) = Some post"
    unfolding url_match_Some using assms by auto
  then have "findall (c # cs) = take (length (c # cs) - length post) (c # cs) # findall post"
    unfolding t by simp
  moreover have "take (length (c # cs) - length post) (c # cs) = u"
    unfolding t [symmetric] by simp
  ultimately show ?thesis unfolding t by simp
qed

lemma findall_first:
  assumes "s = pre @ u @ post"
    and "u = ''http://'' @ body \<or> u = ''https://'' @ body" and "body \<noteq> []"
    and "list_all url_char body" and "post = [] \<or> \<not> url_char (hd post)"
    and "\<forall>k<length pre. \<not> url_start (drop k s)"
  shows "findall s = u # findall post"
  using findall_skip [of pre "u @ post"] assms(6) findall_at_match [OF assms(2-5)]
  unfolding assms(1) by simp

lemma findall_none: "(\<forall>k<length s. \<not> url_start (drop k s)) \<Longrightarrow> findall s = []"
  using findall_skip [of s "[]"] by simp

lemma findall_unique:
  assumes none: "\<And>s. (\<forall>k<length s. \<not> url_start (drop k s)) \<Longrightarrow> f s = []"
    and first: "\<And>s pre u body post. s = pre @ u @ post \<Longrightarrow>
        u = ''http://'' @ body \<or> u = ''https://'' @ body \<Longrightarrow> body \<noteq> [] \<Longrightarrow>
        list_all url_char body \<Longrightarrow> post = [] \<or> \<not> url_char (hd post) \<Longrightarrow>
        (\<forall>k<length pre. \<not> url_start (drop k s)) \<Longrightarrow> f s = u # f post"
  shows "f s = findall s"
proof (induction "length s" arbitrary: s rule: less_induct)
  case less
  show ?case
  proof (cases "\<forall>k<length s. \<not> url_start (drop k s)")
    case True
    then show ?thesis using none [of s] findall_none [of s] by simp
  next
    case False
    define k where "k = (LEAST k. k < length s \<and> url_start (drop k s))"
    from False have ex: "\<exists>k. k < length s \<and> url_start (drop k s)" by blast
    have k: "k < length s" "url_start (drop k s)"
      using LeastI_ex [OF ex] unfolding k_def by blast+
    have least: "\<forall>j<k. \<not> url_start (drop j s)"
    proof (intro allI impI)
      fix j assume j: "j < k"
      show "\<not> url_start (drop j s)"
      proof
        assume "url_start (drop j s)"
        with j k(1) have "j < length s \<and> url_start (drop j s)" by simp
        then have "k \<le> j" unfolding k_def by (rule Least_le)
        with j show False by simp
      qed
    qed
    from k(2) obtain c t where c: "url_char c"
        "drop k s = ''http://'' @ c # t \<or> drop k s = ''https://'' @ c # t"
      unfolding url_start_iff by blast
    from c(2) obtain sch where sch: "sch = ''http://'' \<or> sch = ''https://''"
        "drop k s = sch @ c # t"
      by blast
    define body where "body = c # takeWhile url_char t"
    define post where "post = dropWhile url_char t"
    define u where "u = sch @ body"
    have ds: "drop k s = u @ post" unfolding u_def body_def post_def sch(2) by simp
    have ub: "u = ''http://'' @ body \<or> u = ''https://'' @ body"
      using sch(1) unfolding u_def by blast
    have b: "body \<noteq> []" "list_all url_char body" "post = [] \<or> \<not> url_char (hd post)"
    proof -
      show "body \<noteq> []" unfolding body_def by simp
      show "list_all url_char body" unfolding body_def using c(1)
        by (simp add: list_all_iff) (metis set_takeWhileD)
      show "post = [] \<or> \<not> url_char (hd post)" unfolding post_def by (metis hd_dropWhile)
    qed
    have s: "s = take k s @ u @ post" unfolding ds [symmetric] by simp
    have lk: "length (take k s) = k" using k(1) by simp
    from least lk have l: "\<forall>j<length (take k s). \<not> url_start (drop j s)" by simp
    have "length s - k = length u + length post"
      using arg_cong [OF ds, of length] by simp
    moreover have "0 < length u" unfolding u_def body_def by simp
    ultimately have "length post < length s" by linarith
    from less [OF this] have ih: "f post = findall post" .
    from first [OF s ub b l] findall_first [OF s ub b l] ih show ?thesis by simp
  qed
qed

text \<open>
  Claim C1, as the code has it.  \<open>findall\<close> scans the content from left to right and
  reports matches that do not overlap.  When the content has no place where a match
  starts, nothing is reported.  Otherwise the first text reported is the match at the
  leftmost such place: \<^verbatim>\<open>http://\<close> or \<^verbatim>\<open>https://\<close> and then the longest run of one or more
  characters of \<open>url_char\<close>, so the content ends after it or goes on with a character
  outside \<open>url_char\<close>; the texts reported after it are those of the content that follows
  the match.  These two rules fix the whole result: a function that obeys them is
  \<open>findall\<close>.  \<open>url_char\<close> is the letters, the digits, \<^verbatim>\<open>!\<close> and the whole range from
  \<^verbatim>\<open>$\<close> to \<^verbatim>\<open>_\<close>, which holds \<^verbatim>\<open>% ' / : ; < = > ? [ \ ] ^\<close> besides the symbols the
  specification lists; so every iteration of the group takes one character, a \<^verbatim>\<open>%\<close> also
  when no two hex digits follow it.
\<close>

theorem findall_url_shape:
  "((\<forall>k<length s. \<not> url_start (drop k s)) \<longrightarrow> findall s = [])
   \<and> (\<forall>pre u body post.
         s = pre @ u @ post \<and> (u = ''http://'' @ body \<or> u = ''https://'' @ body)
         \<and> body \<noteq> [] \<and> list_all url_char body \<and> (post = [] \<or> \<not> url_char (hd post))
         \<and> (\<forall>k<length pre. \<not> url_start (drop k s))
       \<longrightarrow> findall s = u # findall post)
   \<and> (\<forall>f. (\<forall>s. ((\<forall>k<length s. \<not> url_start (drop k s)) \<longrightarrow> f s = [])
              \<and> (\<forall>pre u body post.
                    s = pre @ u @ post \<and> (u = ''http://'' @ body \<or> u = ''https://'' @ body)
                    \<and> body \<noteq> [] \<and> list_all url_char body
                    \<and> (post = [] \<or> \<not> url_char (hd post))
                    \<and> (\<forall>k<length pre. \<not> url_start (drop k s))
                  \<longrightarrow> f s = u # f post))
        \<longrightarrow> f = findall)
   \<and> (\<forall>u \<in> set (findall s).
        \<exists>pre body post. s = pre @ u @ post
          \<and> (u = ''http://'' @ body \<or> u = ''https://'' @ body) \<and> body \<noteq> []
          \<and> list_all url_char body \<and> (post = [] \<or> \<not> url_char (hd post)))
   \<and> (url_start s \<longleftrightarrow>
        (\<exists>c t. url_char c \<and> (s = ''http://'' @ c # t \<or> s = ''https://'' @ c # t)))
   \<and> (\<forall>c. url_char c \<longleftrightarrow>
          letter c \<or> digit c \<or> c = CHR ''!'' \<or> (CHR ''$'' \<le> c \<and> c \<le> CHR ''_''))
   \<and> (\<forall>c cs. url_group (c # cs) = (if url_char c then Some cs else None))"
proof (intro conjI)
  show "(\<forall>k<length s. \<not> url_start (drop k s)) \<longrightarrow> findall s = []"
    using findall_none by blast
  show "\<forall>pre u body post.
         s = pre @ u @ post \<and> (u = ''http://'' @ body \<or> u = ''https://'' @ body)
         \<and> body \<noteq> [] \<and> list_all url_char body \<and> (post = [] \<or> \<not> url_char (hd post))
         \<and> (\<forall>k<length pre. \<not> url_start (drop k s))
       \<longrightarrow> findall s = u # findall post"
    using findall_first by blast
  show "\<forall>f. (\<forall>s. ((\<forall>k<length s. \<not> url_start (drop k s)) \<longrightarrow> f s = [])
              \<and> (\<forall>pre u body post.
                    s = pre @ u @ post \<and> (u = ''http://'' @ body \<or> u = ''https://'' @ body)
                    \<and> body \<noteq> [] \<and> list_all url_char body
                    \<and> (post = [] \<or> \<not> url_char (hd post))
                    \<and> (\<forall>k<length pre. \<not> url_start (drop k s))
                  \<longrightarrow> f s = u # f post))
        \<longrightarrow> f = findall"
  proof (intro allI impI)
    fix f :: "string \<Rightarrow> string list"
    assume a: "\<forall>s. ((\<forall>k<length s. \<not> url_start (drop k s)) \<longrightarrow> f s = [])
              \<and> (\<forall>pre u body post.
                    s = pre @ u @ post \<and> (u = ''http://'' @ body \<or> u = ''https://'' @ body)
                    \<and> body \<noteq> [] \<and> list_all url_char body
                    \<and> (post = [] \<or> \<not> url_char (hd post))
                    \<and> (\<forall>k<length pre. \<not> url_start (drop k s))
                  \<longrightarrow> f s = u # f post)"
    have n: "\<And>s. (\<forall>k<length s. \<not> url_start (drop k s)) \<Longrightarrow> f s = []"
      using a by blast
    have r: "\<And>s pre u body post. s = pre @ u @ post \<Longrightarrow>
        u = ''http://'' @ body \<or> u = ''https://'' @ body \<Longrightarrow> body \<noteq> [] \<Longrightarrow>
        list_all url_char body \<Longrightarrow> post = [] \<or> \<not> url_char (hd post) \<Longrightarrow>
        (\<forall>k<length pre. \<not> url_start (drop k s)) \<Longrightarrow> f s = u # f post"
    proof -
      fix s pre u body post
      assume "s = pre @ u @ post" "u = ''http://'' @ body \<or> u = ''https://'' @ body"
        "body \<noteq> []" "list_all url_char body" "post = [] \<or> \<not> url_char (hd post)"
        "\<forall>k<length pre. \<not> url_start (drop k s)"
      then have "s = pre @ u @ post \<and> (u = ''http://'' @ body \<or> u = ''https://'' @ body)
                    \<and> body \<noteq> [] \<and> list_all url_char body
                    \<and> (post = [] \<or> \<not> url_char (hd post))
                    \<and> (\<forall>k<length pre. \<not> url_start (drop k s))"
        by simp
      with a [rule_format, of s, THEN conjunct2, rule_format, of pre u post body]
      show "f s = u # f post" by blast
    qed
    show "f = findall"
    proof
      fix s show "f s = findall s" by (rule findall_unique [of f, OF n r])
    qed
  qed
  show "\<forall>u \<in> set (findall s).
        \<exists>pre body post. s = pre @ u @ post
          \<and> (u = ''http://'' @ body \<or> u = ''https://'' @ body) \<and> body \<noteq> []
          \<and> list_all url_char body \<and> (post = [] \<or> \<not> url_char (hd post))"
    using findall_sound by blast
  show "url_start s \<longleftrightarrow>
        (\<exists>c t. url_char c \<and> (s = ''http://'' @ c # t \<or> s = ''https://'' @ c # t))"
    by (rule url_start_iff)
  show "\<forall>c. url_char c \<longleftrightarrow>
          letter c \<or> digit c \<or> c = CHR ''!'' \<or> (CHR ''$'' \<le> c \<and> c \<le> CHR ''_'')"
    unfolding url_char_range letter_def digit_def by (auto simp: less_eq_char_def)
  show "\<forall>c cs. url_group (c # cs) = (if url_char c then Some cs else None)"
    using url_group_char by blast
qed

theorem findall_url_shape_witness:
  "findall ''see http://a.co/1 and https://b.co/2''
     = [''http://a.co/1'', ''https://b.co/2'']"
proof -
  have c: "list_all url_char ''a.co/1''" "list_all url_char ''b.co/2''" "\<not> url_char (CHR '' '')"
    by (simp_all add: url_char_def letter_def digit_def sym_class_def punct_class_def)
  have h1: "''see http://a.co/1 and https://b.co/2''
        = ''see '' @ ''http://a.co/1'' @ '' and https://b.co/2''
      \<and> (''http://a.co/1'' = ''http://'' @ ''a.co/1'' \<or> ''http://a.co/1'' = ''https://'' @ ''a.co/1'')
      \<and> ''a.co/1'' \<noteq> [] \<and> list_all url_char ''a.co/1''
      \<and> ('' and https://b.co/2'' = [] \<or> \<not> url_char (hd '' and https://b.co/2''))
      \<and> (\<forall>k<length ''see ''. \<not> url_start (drop k ''see http://a.co/1 and https://b.co/2''))"
    using c by (simp add: All_less_Suc url_start_def)
  have h2: "'' and https://b.co/2'' = '' and '' @ ''https://b.co/2'' @ []
      \<and> (''https://b.co/2'' = ''http://'' @ ''b.co/2'' \<or> ''https://b.co/2'' = ''https://'' @ ''b.co/2'')
      \<and> ''b.co/2'' \<noteq> [] \<and> list_all url_char ''b.co/2''
      \<and> ([] = [] \<or> \<not> url_char (hd []))
      \<and> (\<forall>k<length '' and ''. \<not> url_start (drop k '' and https://b.co/2''))"
    using c by (simp add: All_less_Suc url_start_def)
  have h3: "\<forall>k<length ''''. \<not> url_start (drop k '''')" by simp
  have "findall ''see http://a.co/1 and https://b.co/2''
      = ''http://a.co/1'' # findall '' and https://b.co/2''"
    by (rule findall_url_shape [THEN conjunct2, THEN conjunct1, rule_format, OF h1])
  moreover have "findall '' and https://b.co/2'' = ''https://b.co/2'' # findall []"
    by (rule findall_url_shape [THEN conjunct2, THEN conjunct1, rule_format, OF h2])
  moreover have "findall '''' = []"
    by (rule findall_url_shape [THEN conjunct1, THEN mp, OF h3])
  ultimately show ?thesis by simp
qed

text \<open>
  The claim as the specification words it fails: in \<^verbatim>\<open>https://a.co/x\<close> the whole text is
  matched, and its \<^verbatim>\<open>/\<close> is neither a letter, a digit, one of the twelve symbols nor
  part of a \<^verbatim>\<open>%XX\<close> pair.
\<close>

theorem findall_spec_set_counterexample:
  "findall ''https://a.co/x'' = [''https://a.co/x'']
   \<and> \<not> spec_url_char (CHR ''/'') \<and> \<not> spec_url_body ''a.co/x''"
  by (simp add: url_match_def url_tail_def url_run.simps letter_def digit_def sym_class_def
      punct_class_def spec_url_char_def hexdigit_def)

subsection \<open>Link extraction\<close>

lemma remdups_snoc: "remdups (ys @ [x]) = remdups (filter (\<lambda>y. y \<noteq> x) ys) @ [x]"
  by (induction ys) auto

lemma first_occurrences_Cons:
  "rev (remdups (rev (x # xs))) = x # rev (remdups (rev (filter (\<lambda>y. y \<noteq> x) xs)))"
  by (simp add: remdups_snoc rev_filter)

lemma unique_loop_eq:
  "unique_loop xs seen acc = acc @ rev (remdups (rev (filter (\<lambda>y. y \<notin> seen) xs)))"
proof (induction xs arbitrary: seen acc)
  case Nil
  show ?case by simp
next
  case (Cons x xs)
  have f: "filter (\<lambda>y. y \<notin> insert x seen) xs = filter (\<lambda>y. y \<noteq> x) (filter (\<lambda>y. y \<notin> seen) xs)"
    by (induction xs) auto
  show ?case
  proof (cases "x \<in> seen")
    case True
    then show ?thesis using Cons [of seen acc] by simp
  next
    case False
    have "unique_loop (x # xs) seen acc = unique_loop xs (insert x seen) (acc @ [x])"
      using False by simp
    also have "\<dots> = (acc @ [x]) @ rev (remdups (rev (filter (\<lambda>y. y \<notin> insert x seen) xs)))"
      by (rule Cons)
    also have "\<dots> = acc @ x # rev (remdups (rev (filter (\<lambda>y. y \<noteq> x) (filter (\<lambda>y. y \<notin> seen) xs))))"
      by (simp only: f append_assoc append_Cons append_Nil)
    also have "\<dots> = acc @ rev (remdups (rev (x # filter (\<lambda>y. y \<notin> seen) xs)))"
      by (simp only: first_occurrences_Cons)
    also have "x # filter (\<lambda>y. y \<notin> seen) xs = filter (\<lambda>y. y \<notin> seen) (x # xs)"
      using False by simp
    finally show ?thesis .
  qed
qed

lemma extract_links_eq: "extract_links ms = rev (remdups (rev (collect_links ms [])))"
  by (simp add: extract_links_def unique_loop_eq)

lemma attachment_links_eq:
  "attachment_links atts links =
     links @ filter (\<lambda>u. u \<noteq> '''') (map (\<lambda>a. get_default (att_url a) '''') atts)"
  by (induction atts arbitrary: links) (simp_all add: Let_def)

lemma embed_links_eq:
  "embed_links e links =
     links @ (case embed_url e of None \<Rightarrow> [] | Some u \<Rightarrow> if u \<noteq> '''' then [u] else [])
       @ media_link (image e) @ media_link (thumbnail e) @ media_link (video e)"
  by (simp add: embed_links_def media_link_def Let_def split: option.splits)

lemma embeds_links_eq:
  "embeds_links es links =
     links @ concat (map (\<lambda>e. (case embed_url e of None \<Rightarrow> [] | Some u \<Rightarrow> if u \<noteq> '''' then [u] else [])
                          @ media_link (image e) @ media_link (thumbnail e) @ media_link (video e)) es)"
  by (induction es arbitrary: links) (simp_all add: embed_links_eq)

lemma collect_links_eq: "collect_links ms links = links @ concat (map message_links ms)"
  by (induction ms arbitrary: links)
     (simp_all add: Let_def message_links_def attachment_links_eq embeds_links_eq)

lemma first_occurrences_index:
  "rev (remdups (rev xs)) = map (\<lambda>i. xs ! i) (filter (\<lambda>i. xs ! i \<notin> set (take i xs)) [0..<length xs])"
proof (induction xs rule: rev_induct)
  case Nil
  show ?case by simp
next
  case (snoc x xs)
  let ?ys = "xs @ [x]"
  have m: "map (\<lambda>i. ?ys ! i) (filter (\<lambda>i. ?ys ! i \<notin> set (take i ?ys)) [0..<length xs])
         = map (\<lambda>i. xs ! i) (filter (\<lambda>i. xs ! i \<notin> set (take i xs)) [0..<length xs])"
  proof -
    have f: "filter (\<lambda>i. ?ys ! i \<notin> set (take i ?ys)) [0..<length xs]
           = filter (\<lambda>i. xs ! i \<notin> set (take i xs)) [0..<length xs]"
      by (rule filter_cong) (auto simp: nth_append)
    show ?thesis unfolding f by (rule map_cong) (auto simp: nth_append)
  qed
  have u: "[0..<length ?ys] = [0..<length xs] @ [length xs]" by simp
  have l: "map (\<lambda>i. ?ys ! i) (filter (\<lambda>i. ?ys ! i \<notin> set (take i ?ys)) [length xs])
         = (if x \<in> set xs then [] else [x])"
    by simp
  have "rev (remdups (rev ?ys)) = rev (remdups (rev xs)) @ (if x \<in> set xs then [] else [x])"
    by simp
  also have "\<dots> = map (\<lambda>i. ?ys ! i) (filter (\<lambda>i. ?ys ! i \<notin> set (take i ?ys)) [0..<length xs])
                 @ map (\<lambda>i. ?ys ! i) (filter (\<lambda>i. ?ys ! i \<notin> set (take i ?ys)) [length xs])"
    by (simp only: snoc m l)
  also have "\<dots> = map (\<lambda>i. ?ys ! i) (filter (\<lambda>i. ?ys ! i \<notin> set (take i ?ys)) [0..<length ?ys])"
    by (simp only: u filter_append map_append)
  finally show ?case .
qed

text \<open>
  Claim C2.  \<open>extract_links\<close> returns no link twice; it returns the links collected from
  the batch and no others; and it keeps, in their order, exactly the links that stand at
  their first occurrence in the collected list.  A batch of one message with the content
  \<^verbatim>\<open>see https://a.co/x and https://a.co/x again\<close> gives the one link \<^verbatim>\<open>https://a.co/x\<close>.
\<close>
theorem extract_links_unique:
  "distinct (extract_links ms)
   \<and> set (extract_links ms) = set (collect_links ms [])
   \<and> extract_links ms =
       map (\<lambda>i. collect_links ms [] ! i)
         (filter (\<lambda>i. collect_links ms [] ! i \<notin> set (take i (collect_links ms [])))
            [0..<length (collect_links ms [])])
   \<and> extract_links [\<lparr>msg_id = i, author = a, timestamp = t,
          content = Some ''see https://a.co/x and https://a.co/x again'',
          attachments = Some [], embeds = Some []\<rparr>] = [''https://a.co/x'']"
proof (intro conjI)
  show "distinct (extract_links ms)" by (simp add: extract_links_eq)
  show "set (extract_links ms) = set (collect_links ms [])" by (simp add: extract_links_eq)
  show "extract_links ms =
       map (\<lambda>i. collect_links ms [] ! i)
         (filter (\<lambda>i. collect_links ms [] ! i \<notin> set (take i (collect_links ms [])))
            [0..<length (collect_links ms [])])"
    unfolding extract_links_eq by (rule first_occurrences_index)
  show "extract_links [\<lparr>msg_id = i, author = a, timestamp = t,
          content = Some ''see https://a.co/x and https://a.co/x again'',
          attachments = Some [], embeds = Some []\<rparr>] = [''https://a.co/x'']"
    by (simp add: extract_links_def get_default_def url_match_def url_tail_def url_run.simps
        letter_def digit_def sym_class_def punct_class_def)
qed

theorem extract_links_unique_witness:
  "distinct (extract_links
     [\<lparr>msg_id = ''1'', author = None, timestamp = None, content = Some ''http://u/0 http://u/0'',
        attachments = None, embeds = None\<rparr>])
   \<and> extract_links
     [\<lparr>msg_id = ''1'', author = None, timestamp = None,
        content = Some ''see https://a.co/x and https://a.co/x again'',
        attachments = Some [], embeds = Some []\<rparr>] = [''https://a.co/x'']"
  using extract_links_unique [of
      "[\<lparr>msg_id = ''1'', author = None, timestamp = None, content = Some ''http://u/0 http://u/0'',
          attachments = None, embeds = None\<rparr>]" "''1''" None None]
  by blast

text \<open>
  Claim C3.  The messages are scanned in the order of the batch, and each message adds
  its links in the order of \<open>message_links\<close>: the URLs matched in the content, then the
  URL of each attachment, then for each embed its own URL, its image, its thumbnail and
  its video.  The result is that list with every link kept at its first occurrence.
\<close>
theorem extract_links_order:
  "collect_links ms [] = concat (map message_links ms)
   \<and> extract_links ms = rev (remdups (rev (concat (map message_links ms))))
   \<and> message_links m =
       findall (get_default (content m) '''')
       @ filter (\<lambda>u. u \<noteq> '''')
           (map (\<lambda>a. get_default (att_url a) '''') (get_default (attachments m) []))
       @ concat (map (\<lambda>e. (case embed_url e of None \<Rightarrow> []
                                | Some u \<Rightarrow> if u \<noteq> '''' then [u] else [])
                              @ media_link (image e) @ media_link (thumbnail e)
                              @ media_link (video e))
                   (get_default (embeds m) []))"
  by (simp add: collect_links_eq extract_links_eq message_links_def del: remdups.simps)

theorem extract_links_order_witness:
  "extract_links
     [\<lparr>msg_id = ''2'', author = None, timestamp = None, content = Some ''b http://u/1 http://u/0'',
        attachments = Some [\<lparr>att_filename = None, att_url = Some ''http://att''\<rparr>],
        embeds = Some [\<lparr>embed_url = Some ''http://u/1'', image = Some \<lparr>media_url = Some ''http://img''\<rparr>,
                         thumbnail = Some \<lparr>media_url = Some ''http://th''\<rparr>,
                         video = Some \<lparr>media_url = Some ''http://vid''\<rparr>\<rparr>]\<rparr>,
      \<lparr>msg_id = ''1'', author = None, timestamp = None, content = Some ''see http://img'',
        attachments = None, embeds = None\<rparr>]
    = [''http://u/1'', ''http://u/0'', ''http://att'', ''http://img'', ''http://th'', ''http://vid'']"
proof -
  let ?m2 = "\<lparr>msg_id = ''2'', author = None, timestamp = None, content = Some ''b http://u/1 http://u/0'',
        attachments = Some [\<lparr>att_filename = None, att_url = Some ''http://att''\<rparr>],
        embeds = Some [\<lparr>embed_url = Some ''http://u/1'', image = Some \<lparr>media_url = Some ''http://img''\<rparr>,
                         thumbnail = Some \<lparr>media_url = Some ''http://th''\<rparr>,
                         video = Some \<lparr>media_url = Some ''http://vid''\<rparr>\<rparr>]\<rparr>"
  let ?m1 = "\<lparr>msg_id = ''1'', author = None, timestamp = None, content = Some ''see http://img'',
        attachments = None, embeds = None\<rparr>"
  have a: "message_links ?m2 = [''http://u/1'', ''http://u/0'', ''http://att'', ''http://u/1'',
      ''http://img'', ''http://th'', ''http://vid'']"
    by (simp add: message_links_def media_link_def get_default_def url_match_def url_tail_def
        url_run.simps letter_def digit_def sym_class_def punct_class_def)
  have b: "message_links ?m1 = [''http://img'']"
    by (simp add: message_links_def media_link_def get_default_def url_match_def url_tail_def
        url_run.simps letter_def digit_def sym_class_def punct_class_def)
  have "extract_links [?m2, ?m1] = rev (remdups (rev (concat (map message_links [?m2, ?m1]))))"
    using extract_links_order [of "[?m2, ?m1]"] by blast
  then show ?thesis by (simp add: a b)
qed

text \<open>
  Claim C10.  An attachment's URL and an embed's own URL are added when they are not
  empty.  The URL of an embed's image, thumbnail or video is added whenever the
  sub-object has the key, whatever its value, so an empty value is added too; the
  batch below gives a result that holds the empty string.
\<close>

theorem extract_links_empty_url:
  "attachment_links atts links =
     links @ filter (\<lambda>u. u \<noteq> '''') (map (\<lambda>a. get_default (att_url a) '''') atts)
   \<and> embed_links e links =
       links @ (case embed_url e of None \<Rightarrow> [] | Some u \<Rightarrow> if u \<noteq> '''' then [u] else [])
         @ media_link (image e) @ media_link (thumbnail e) @ media_link (video e)
   \<and> media_link (Some \<lparr>media_url = Some u\<rparr>) = [u]
   \<and> extract_links
         [\<lparr>msg_id = ''1'', author = None, timestamp = None, content = None,
            attachments = Some [\<lparr>att_filename = None, att_url = Some ''''\<rparr>],
            embeds = Some [\<lparr>embed_url = Some '''', image = Some \<lparr>media_url = Some ''''\<rparr>,
                             thumbnail = None, video = None\<rparr>]\<rparr>] = ['''']"
proof (intro conjI)
  show "attachment_links atts links =
     links @ filter (\<lambda>u. u \<noteq> '''') (map (\<lambda>a. get_default (att_url a) '''') atts)"
    by (rule attachment_links_eq)
  show "embed_links e links =
       links @ (case embed_url e of None \<Rightarrow> [] | Some u \<Rightarrow> if u \<noteq> '''' then [u] else [])
         @ media_link (image e) @ media_link (thumbnail e) @ media_link (video e)"
    by (rule embed_links_eq)
  show "media_link (Some \<lparr>media_url = Some u\<rparr>) = [u]"
    by (simp add: media_link_def)
  show "extract_links
         [\<lparr>msg_id = ''1'', author = None, timestamp = None, content = None,
            attachments = Some [\<lparr>att_filename = None, att_url = Some ''''\<rparr>],
            embeds = Some [\<lparr>embed_url = Some '''', image = Some \<lparr>media_url = Some ''''\<rparr>,
                             thumbnail = None, video = None\<rparr>]\<rparr>] = ['''']"
    by (simp add: extract_links_def get_default_def embed_links_def)
qed

theorem extract_links_empty_url_witness:
  "embed_links \<lparr>embed_url = Some '''', image = None, thumbnail = Some \<lparr>media_url = Some ''''\<rparr>,
       video = Some \<lparr>media_url = Some ''v''\<rparr>\<rparr> [''a''] = [''a'', '''', ''v'']
   \<and> attachment_links [\<lparr>att_filename = None, att_url = Some ''''\<rparr>,
        \<lparr>att_filename = None, att_url = None\<rparr>, \<lparr>att_filename = None, att_url = Some ''x''\<rparr>] []
       = [''x'']"
  using extract_links_empty_url [of
      "[\<lparr>att_filename = None, att_url = Some ''''\<rparr>,
        \<lparr>att_filename = None, att_url = None\<rparr>, \<lparr>att_filename = None, att_url = Some ''x''\<rparr>]"
      "[]"
      "\<lparr>embed_url = Some '''', image = None, thumbnail = Some \<lparr>media_url = Some ''''\<rparr>,
       video = Some \<lparr>media_url = Some ''v''\<rparr>\<rparr>" "''''"]
    extract_links_empty_url [of "[]" "[''a'']"
      "\<lparr>embed_url = Some '''', image = None, thumbnail = Some \<lparr>media_url = Some ''''\<rparr>,
       video = Some \<lparr>media_url = Some ''v''\<rparr>\<rparr>" "''''"]
  by (simp add: media_link_def get_default_def)

subsection \<open>The fetch loop\<close>

lemma fetch_step_Inr:
  assumes "fetch_step lib u token (v, w) = Inr (v1, w1)"
  shows "\<exists>x. log w1 = log w @ [x] \<and> fst x = request_of u token v \<and> \<not> failed (snd x)
           \<and> page x \<noteq> [] \<and> \<not> int (length (page x)) < min_100 (remaining v)
           \<and> positive (remaining v) \<and> v1 = advance v x \<and> files w1 = files w
           \<and> snd x = fst (api lib (server w) (request_of u token v))"
  using assms
  by (auto simp: fetch_step_def Let_def request_of_def page_def advance_def failed_def print_def
      split: prod.splits sum.splits if_splits)

lemma fetch_step_Inl:
  assumes "fetch_step lib u token (v, w) = Inl (res, w1)"
  shows "files w1 = files w \<and>
         ((\<not> positive (remaining v) \<and> res = Inr (all_messages v) \<and> log w1 = log w \<and> stdout w1 = stdout w)
          \<or> (\<exists>x. log w1 = log w @ [x] \<and> positive (remaining v) \<and> fst x = request_of u token v
                \<and> snd x = fst (api lib (server w) (request_of u token v))
                \<and> (if failed (snd x) then res = Inl (SystemExit 1) \<and> stdout w1 = stdout w @ error_lines (snd x)
                    else if page x = [] then res = Inr (all_messages v)
                    else int (length (page x)) < min_100 (remaining v) \<and> res = Inr (all_messages (advance v x)))))"
  using assms
  by (auto simp: fetch_step_def Let_def request_of_def page_def advance_def failed_def print_def
      error_lines_def split: prod.splits sum.splits if_splits)

lemma fetch_loop_run:
  assumes "fetch_loop lib u token st = Some out"
  shows "\<exists>xs. log (snd out) = log (snd st) @ xs \<and> run u token (fst st) xs (fst out)
           \<and> files (snd out) = files (snd st)
           \<and> (\<forall>e. fst out = Inl e \<longrightarrow>
                 xs \<noteq> [] \<and> (\<exists>pre. stdout (snd out) = pre @ error_lines (snd (last xs))))"
  using assms
proof (induction rule: fetch_loop.raw_induct [rotated 1, consumes 1])
  case (1 loop lib u token st out)
  obtain v w where st: "st = (v, w)" by (cases st)
  obtain res w' where out: "out = (res, w')" by (cases out)
  show ?case
  proof (cases "fetch_step lib u token (v, w)")
    case (Inl fin)
    with 1(2) st out have fin: "fetch_step lib u token (v, w) = Inl (res, w')" by simp
    from fetch_step_Inl [OF fin] have f: "files w' = files w"
      and d: "(\<not> positive (remaining v) \<and> res = Inr (all_messages v) \<and> log w' = log w \<and> stdout w' = stdout w)
          \<or> (\<exists>x. log w' = log w @ [x] \<and> positive (remaining v) \<and> fst x = request_of u token v
                \<and> snd x = fst (api lib (server w) (request_of u token v))
                \<and> (if failed (snd x) then res = Inl (SystemExit 1) \<and> stdout w' = stdout w @ error_lines (snd x)
                    else if page x = [] then res = Inr (all_messages v)
                    else int (length (page x)) < min_100 (remaining v) \<and> res = Inr (all_messages (advance v x))))"
      by blast+
    from d show ?thesis
    proof
      assume "\<not> positive (remaining v) \<and> res = Inr (all_messages v) \<and> log w' = log w \<and> stdout w' = stdout w"
      then have "log w' = log w @ [] \<and> run u token v [] res" by simp
      then show ?thesis unfolding st out using f \<open>\<not> positive (remaining v) \<and> _\<close>
        by (intro exI [of _ "[]"]) auto
    next
      assume "\<exists>x. log w' = log w @ [x] \<and> positive (remaining v) \<and> fst x = request_of u token v
                \<and> snd x = fst (api lib (server w) (request_of u token v))
                \<and> (if failed (snd x) then res = Inl (SystemExit 1) \<and> stdout w' = stdout w @ error_lines (snd x)
                    else if page x = [] then res = Inr (all_messages v)
                    else int (length (page x)) < min_100 (remaining v) \<and> res = Inr (all_messages (advance v x)))"
      then obtain x where x: "log w' = log w @ [x]" "positive (remaining v)" "fst x = request_of u token v"
          "if failed (snd x) then res = Inl (SystemExit 1) \<and> stdout w' = stdout w @ error_lines (snd x)
                    else if page x = [] then res = Inr (all_messages v)
                    else int (length (page x)) < min_100 (remaining v) \<and> res = Inr (all_messages (advance v x))"
        by blast
      have r: "run u token v [x] res" using x(2,3,4) by (auto split: if_splits)
      have e: "\<forall>e. res = Inl e \<longrightarrow> (\<exists>pre. stdout w' = pre @ error_lines (snd (last [x])))"
        using x(4) by (auto split: if_splits)
      show ?thesis unfolding st out using x(1) r f e
        by (intro exI [of _ "[x]"]) auto
    qed
  next
    case (Inr st1)
    obtain v1 w1 where st1: "st1 = (v1, w1)" by (cases st1)
    from 1(2) Inr st st1 have "loop lib u token (v1, w1) = Some out" by simp
    from 1(1) [OF this] obtain xs where xs: "log w' = log w1 @ xs" "run u token v1 xs res"
        "files w' = files w1"
        "\<forall>e. res = Inl e \<longrightarrow> xs \<noteq> [] \<and> (\<exists>pre. stdout w' = pre @ error_lines (snd (last xs)))"
      unfolding out by auto
    from fetch_step_Inr [OF Inr [unfolded st1]] obtain x where x: "log w1 = log w @ [x]"
        "fst x = request_of u token v" "\<not> failed (snd x)" "page x \<noteq> []"
        "\<not> int (length (page x)) < min_100 (remaining v)" "positive (remaining v)"
        "v1 = advance v x" "files w1 = files w"
      by blast
    have r: "run u token v (x # xs) res" using x xs(2) by simp
    have l: "log w' = log w @ (x # xs)" using x(1) xs(1) by simp
    have e: "\<forall>e. res = Inl e \<longrightarrow>
        x # xs \<noteq> [] \<and> (\<exists>pre. stdout w' = pre @ error_lines (snd (last (x # xs))))"
      using xs(4) by auto
    show ?thesis unfolding st out using l r e xs(3) x(8)
      by (intro exI [of _ "x # xs"]) auto
  qed
qed

lemma fetch_loop_terminates:
  "remaining v = Bounded n \<Longrightarrow> \<exists>out. fetch_loop lib u token (v, w) = Some out"
proof (induction "nat n" arbitrary: n v w rule: less_induct)
  case less
  show ?case
  proof (cases "fetch_step lib u token (v, w)")
    case (Inl fin)
    then show ?thesis by (simp add: fetch_loop.simps [of lib u token "(v, w)"])
  next
    case (Inr st1)
    obtain v1 w1 where st1: "st1 = (v1, w1)" by (cases st1)
    from fetch_step_Inr [OF Inr [unfolded st1]] obtain x where x: "page x \<noteq> []"
        "\<not> int (length (page x)) < min_100 (remaining v)" "positive (remaining v)"
        "v1 = advance v x"
      by blast
    from x(3) less(2) have n: "0 < n" by simp
    from x(1) have "0 < length (page x)" by simp
    have r: "remaining v1 = Bounded (n - int (length (page x)))"
      using x(4) less(2) by (simp add: advance_def)
    have "nat (n - int (length (page x))) < nat n" using n \<open>0 < length (page x)\<close> by linarith
    from less(1) [OF this r] obtain out where "fetch_loop lib u token (v1, w1) = Some out" by blast
    then show ?thesis using Inr st1 by (simp add: fetch_loop.simps [of lib u token "(v, w)"])
  qed
qed

lemma minus_len_add: "minus_len (minus_len r a) b = minus_len r (a + b)"
  by (cases r) simp_all

lemma foldl_advance:
  "remaining (foldl advance v ys) = minus_len (remaining v) (length (concat (map page ys)))"
  "all_messages (foldl advance v ys) = all_messages v @ concat (map page ys)"
  "last_message_id (foldl advance v ys) =
     (if ys = [] then last_message_id v else Some (msg_id (last (page (last ys)))))"
proof (induction ys rule: rev_induct)
  case Nil
  { case 1 show ?case by (cases "remaining v") simp_all }
  { case 2 show ?case by simp }
  { case 3 show ?case by simp }
next
  case (snoc y ys)
  { case 1 show ?case using snoc(1) by (simp add: advance_def minus_len_add) }
  { case 2 show ?case using snoc(2) by (simp add: advance_def) }
  { case 3 show ?case by (simp add: advance_def) }
qed

lemma run_requests:
  "run u token v xs res \<Longrightarrow> i < length xs \<Longrightarrow>
     fst (xs ! i) = request_of u token (foldl advance v (take i xs))"
proof (induction xs arbitrary: v i)
  case Nil
  then show ?case by simp
next
  case (Cons x xs)
  show ?case
  proof (cases i)
    case 0
    with Cons(2) show ?thesis by simp
  next
    case (Suc j)
    with Cons(3) have j: "j < length xs" by simp
    then have "xs \<noteq> []" by auto
    with Cons(2) have "run u token (advance v x) xs res" by (auto split: if_splits)
    from Cons(1) [OF this j] show ?thesis using Suc by simp
  qed
qed

lemma run_result:
  "run u token v xs res \<Longrightarrow> res = Inr msgs \<Longrightarrow>
     msgs = all_messages v @ concat (map page xs) \<and> (\<forall>x \<in> set xs. \<not> failed (snd x))"
proof (induction xs arbitrary: v)
  case Nil
  then show ?case by simp
next
  case (Cons x xs)
  show ?case
  proof (cases "failed (snd x) \<or> page x = [] \<or> int (length (page x)) < min_100 (remaining v)")
    case True
    with Cons(2,3) show ?thesis by (auto simp: advance_def split: if_splits)
  next
    case False
    with Cons(2) have "run u token (advance v x) xs res" by (auto split: if_splits)
    from Cons(1) [OF this Cons(3)] False show ?thesis by (simp add: advance_def)
  qed
qed

lemma run_failed:
  "run u token v xs res \<Longrightarrow> x \<in> set xs \<Longrightarrow> failed (snd x) \<Longrightarrow>
     x = last xs \<and> res = Inl (SystemExit 1)"
proof (induction xs arbitrary: v)
  case Nil
  then show ?case by simp
next
  case (Cons y ys)
  show ?case
  proof (cases "failed (snd y) \<or> page y = [] \<or> int (length (page y)) < min_100 (remaining v)")
    case True
    with Cons(2) have "ys = []" by (auto split: if_splits)
    with Cons(2,3,4) show ?thesis by (auto split: if_splits)
  next
    case False
    with Cons(2) have r: "run u token (advance v y) ys res" by (auto split: if_splits)
    from False Cons(3,4) have "x \<in> set ys" by auto
    from Cons(1) [OF r this Cons(4)] this show ?thesis by auto
  qed
qed

lemma fetch_messages_run:
  assumes "fetch_messages lib channel_id token lim w = Some (res, w')"
  shows "\<exists>xs. log w' = log w @ xs
           \<and> run (''https://discord.com/api/v10/channels/'' @ channel_id @ ''/messages'') token
               \<lparr>all_messages = [], remaining = lim, last_message_id = None\<rparr> xs res
           \<and> files w' = files w
           \<and> (\<forall>e. res = Inl e \<longrightarrow>
                 xs \<noteq> [] \<and> (\<exists>pre. stdout w' = pre @ error_lines (snd (last xs))))"
  using fetch_loop_run [OF assms [unfolded fetch_messages_def Let_def]]
  by (simp add: print_def)

lemma fetch_messages_terminates:
  "\<exists>out. fetch_messages lib channel_id token (Bounded n) w = Some out"
  unfolding fetch_messages_def Let_def
  by (rule fetch_loop_terminates [of _ n]) simp

lemma fetch_step_continue:
  assumes "positive (remaining v)"
    and "api lib (server w) (request_of u token v) = (Inr r, s)"
    and "status_code r = 200" and "json r \<noteq> []"
    and "\<not> int (length (json r)) < min_100 (remaining v)"
  shows "\<exists>w1. fetch_step lib u token (v, w) = Inr (advance v (request_of u token v, Inr r), w1)
           \<and> log w1 = log w @ [(request_of u token v, Inr r)] \<and> server w1 = s"
  using assms
  by (simp add: fetch_step_def Let_def request_of_def page_def advance_def print_def)

lemma fetch_loop_last:
  assumes "remaining v = Bounded m" and "0 < m" and "m \<le> 100"
  shows "\<exists>res w' x. fetch_loop lib u token (v, w) = Some (res, w')
           \<and> log w' = log w @ [x] \<and> fst x = request_of u token v
           \<and> (\<forall>msgs. res = Inr msgs \<longrightarrow> msgs = all_messages v @ page x)"
proof (cases "fetch_step lib u token (v, w)")
  case (Inl fin)
  obtain res w' where fin: "fin = (res, w')" by (cases fin)
  from assms have p: "positive (remaining v)" by simp
  from fetch_step_Inl [OF Inl [unfolded fin]] p obtain x where
    x: "log w' = log w @ [x]" "fst x = request_of u token v"
       "if failed (snd x) then res = Inl (SystemExit 1) \<and> stdout w' = stdout w @ error_lines (snd x)
        else if page x = [] then res = Inr (all_messages v)
        else int (length (page x)) < min_100 (remaining v) \<and> res = Inr (all_messages (advance v x))"
    by blast
  have "\<forall>msgs. res = Inr msgs \<longrightarrow> msgs = all_messages v @ page x"
    using x(3) by (auto simp: advance_def split: if_splits)
  moreover have "fetch_loop lib u token (v, w) = Some (res, w')"
    using Inl fin by (simp add: fetch_loop.simps [of lib u token "(v, w)"])
  ultimately show ?thesis using x(1,2) by blast
next
  case (Inr st1)
  obtain v1 w1 where st1: "st1 = (v1, w1)" by (cases st1)
  from fetch_step_Inr [OF Inr [unfolded st1]] obtain x where x: "log w1 = log w @ [x]"
      "fst x = request_of u token v" "\<not> int (length (page x)) < min_100 (remaining v)"
      "v1 = advance v x"
    by blast
  from x(3) assms have "m \<le> int (length (page x))" by simp
  then have n: "\<not> positive (remaining v1)" using x(4) assms(1) by (simp add: advance_def)
  then have "fetch_step lib u token (v1, w1) = Inl (Inr (all_messages v1), w1)"
    by (simp add: fetch_step_def)
  then have "fetch_loop lib u token (v1, w1) = Some (Inr (all_messages v1), w1)"
    by (simp add: fetch_loop.simps [of lib u token "(v1, w1)"])
  then have "fetch_loop lib u token (v, w) = Some (Inr (all_messages v1), w1)"
    using Inr st1 by (simp add: fetch_loop.simps [of lib u token "(v, w)"])
  moreover have "all_messages v1 = all_messages v @ page x" using x(4) by (simp add: advance_def)
  ultimately have c: "fetch_loop lib u token (v, w) = Some (Inr (all_messages v1), w1)
      \<and> log w1 = log w @ [x] \<and> fst x = request_of u token v
      \<and> (\<forall>msgs. Inr (all_messages v1) = Inr msgs \<longrightarrow> msgs = all_messages v @ page x)"
    using x(1,2) by simp
  show ?thesis
    by (rule exI [of _ "Inr (all_messages v1)"], rule exI [of _ w1], rule exI [of _ x], rule c)
qed

lemma fetch_loop_unfold:
  "fetch_step lib u token st = Inr st1 \<Longrightarrow> fetch_loop lib u token st = fetch_loop lib u token st1"
  by (simp add: fetch_loop.simps [of lib u token st])

lemma fetch_250:
  fixes channel_id token :: string
  defines "U \<equiv> ''https://discord.com/api/v10/channels/'' @ channel_id @ ''/messages''"
  assumes a1: "api lib (server w) \<lparr>url = U, authorization = token, req_limit = 100, before = None\<rparr>
             = (Inr r1, s1)"
    and r1: "status_code r1 = 200" "length (json r1) = 100" "msg_id (last (json r1)) \<noteq> ''''"
    and a2: "api lib s1 \<lparr>url = U, authorization = token, req_limit = 100,
                          before = Some (msg_id (last (json r1)))\<rparr> = (Inr r2, s2)"
    and r2: "status_code r2 = 200" "length (json r2) = 100" "msg_id (last (json r2)) \<noteq> ''''"
  shows "\<exists>res w'. fetch_messages lib channel_id token (Bounded 250) w = Some (res, w')
          \<and> map fst (drop (length (log w)) (log w'))
              = [\<lparr>url = U, authorization = token, req_limit = 100, before = None\<rparr>,
                 \<lparr>url = U, authorization = token, req_limit = 100,
                   before = Some (msg_id (last (json r1)))\<rparr>,
                 \<lparr>url = U, authorization = token, req_limit = 50,
                   before = Some (msg_id (last (json r2)))\<rparr>]"
proof -
  define v0 where "v0 = \<lparr>all_messages = [], remaining = Bounded 250, last_message_id = None\<rparr>"
  define w0 where "w0 = print (''Fetching messages from channel '' @ channel_id @ ''...'') w"
  have f: "fetch_messages lib channel_id token (Bounded 250) w = fetch_loop lib U token (v0, w0)"
    by (simp add: fetch_messages_def U_def v0_def w0_def)
  have w0: "server w0 = server w" "log w0 = log w" by (simp_all add: w0_def print_def)
  let ?rq1 = "\<lparr>url = U, authorization = token, req_limit = 100, before = None\<rparr>"
  let ?rq2 = "\<lparr>url = U, authorization = token, req_limit = 100,
                   before = Some (msg_id (last (json r1)))\<rparr>"
  let ?rq3 = "\<lparr>url = U, authorization = token, req_limit = 50,
                   before = Some (msg_id (last (json r2)))\<rparr>"
  have q1: "request_of U token v0 = ?rq1" by (simp add: request_of_def v0_def)
  from r1(2) have j1: "json r1 \<noteq> []" by auto
  from r2(2) have j2: "json r2 \<noteq> []" by auto
  define v1 where "v1 = advance v0 (?rq1, Inr r1)"
  have v1: "remaining v1 = Bounded 150" "last_message_id v1 = Some (msg_id (last (json r1)))"
    by (simp_all add: v1_def advance_def page_def v0_def r1(2))
  obtain w1 where s1: "fetch_step lib U token (v0, w0) = Inr (v1, w1)"
      "log w1 = log w @ [(?rq1, Inr r1)]" "server w1 = s1"
    using fetch_step_continue [of v0 lib w0 U token r1 s1] a1 r1 j1
    unfolding q1 w0 v1_def by (auto simp: v0_def)
  have q2: "request_of U token v1 = ?rq2" using v1 r1(3) by (simp add: request_of_def)
  define v2 where "v2 = advance v1 (?rq2, Inr r2)"
  have v2: "remaining v2 = Bounded 50" "last_message_id v2 = Some (msg_id (last (json r2)))"
    by (simp_all add: v2_def advance_def page_def v1 r2(2))
  obtain w2 where s2: "fetch_step lib U token (v1, w1) = Inr (v2, w2)"
      "log w2 = log w1 @ [(?rq2, Inr r2)]"
    using fetch_step_continue [of v1 lib w1 U token r2 s2] a2 r2 j2
    unfolding q2 s1(3) v2_def by (auto simp: v1)
  have q3: "request_of U token v2 = ?rq3" using v2 r2(3) by (simp add: request_of_def)
  from fetch_loop_last [of v2 50 lib U token w2] v2(1) obtain res w' x where
    l: "fetch_loop lib U token (v2, w2) = Some (res, w')" "log w' = log w2 @ [x]"
       "fst x = request_of U token v2"
    by auto
  have "fetch_messages lib channel_id token (Bounded 250) w = Some (res, w')"
    using f fetch_loop_unfold [OF s1(1)] fetch_loop_unfold [OF s2(1)] l(1) by simp
  moreover have "map fst (drop (length (log w)) (log w')) = [?rq1, ?rq2, ?rq3]"
    using l(2,3) s2(2) s1(2) q3 by simp
  ultimately have c: "fetch_messages lib channel_id token (Bounded 250) w = Some (res, w')
      \<and> map fst (drop (length (log w)) (log w')) = [?rq1, ?rq2, ?rq3]"
    by simp
  show ?thesis by (rule exI [of _ res], rule exI [of _ w'], rule c)
qed

lemma last_take: "0 < i \<Longrightarrow> i \<le> length xs \<Longrightarrow> last (take i xs) = xs ! (i - 1)"
  by (cases i) (simp_all add: take_Suc_conv_app_nth)

lemma fetch_messages_requests:
  assumes "fetch_messages lib channel_id token (Bounded n) w = Some (res, w')"
    and "log w' = log w @ xs" and "i < length xs"
  shows "req_limit (fst (xs ! i)) = min (n - int (length (concat (map page (take i xs))))) 100"
    and "before (fst (xs ! i)) =
           (if i = 0 then None
            else if msg_id (last (page (xs ! (i - 1)))) \<noteq> ''''
              then Some (msg_id (last (page (xs ! (i - 1))))) else None)"
proof -
  let ?U = "''https://discord.com/api/v10/channels/'' @ channel_id @ ''/messages''"
  let ?init = "\<lparr>all_messages = [], remaining = Bounded n, last_message_id = None\<rparr>"
  from fetch_messages_run [OF assms(1)] assms(2) have r: "run ?U token ?init xs res" by auto
  let ?cur = "foldl advance ?init (take i xs)"
  have q: "fst (xs ! i) = request_of ?U token ?cur" by (rule run_requests [OF r assms(3)])
  have rem: "remaining ?cur = Bounded (n - int (length (concat (map page (take i xs)))))"
    by (simp add: foldl_advance(1))
  show "req_limit (fst (xs ! i)) = min (n - int (length (concat (map page (take i xs))))) 100"
    unfolding q by (simp add: request_of_def rem)
  have lid: "last_message_id ?cur =
      (if i = 0 then None else Some (msg_id (last (page (xs ! (i - 1))))))"
    using assms(3) by (auto simp: foldl_advance(3) last_take)
  show "before (fst (xs ! i)) =
           (if i = 0 then None
            else if msg_id (last (page (xs ! (i - 1)))) \<noteq> ''''
              then Some (msg_id (last (page (xs ! (i - 1))))) else None)"
    unfolding q by (simp add: request_of_def lid)
qed

lemma rounds_Inl: "rounds lib u token k st = Inl fin \<Longrightarrow> fetch_loop lib u token st = Some fin"
proof (induction k arbitrary: st)
  case 0
  then show ?case by simp
next
  case (Suc k)
  show ?case
  proof (cases "fetch_step lib u token st")
    case (Inl f)
    with Suc(2) show ?thesis by (simp add: fetch_loop.simps [of lib u token st])
  next
    case (Inr st')
    with Suc(2) have "rounds lib u token k st' = Inl fin" by simp
    from Suc(1) [OF this] Inr show ?thesis by (simp add: fetch_loop.simps [of lib u token st])
  qed
qed

lemma loop_rounds:
  assumes "fetch_loop lib u token st = Some fin"
  shows "\<exists>k. rounds lib u token k st = Inl fin"
  using assms
proof (induction rule: fetch_loop.raw_induct [rotated 1, consumes 1])
  case (1 loop lib u token st fin)
  show ?case
  proof (cases "fetch_step lib u token st")
    case (Inl f)
    with 1(2) have "rounds lib u token (Suc 0) st = Inl fin" by simp
    then show ?thesis by blast
  next
    case (Inr st')
    with 1(2) have "loop lib u token st' = Some fin" by simp
    from 1(1) [OF this] obtain k where "rounds lib u token k st' = Inl fin" by blast
    with Inr have "rounds lib u token (Suc k) st = Inl fin" by simp
    then show ?thesis by blast
  qed
qed

lemma rounds_Suc_end:
  "rounds lib u token (Suc k) st =
     (case rounds lib u token k st of
        Inl fin \<Rightarrow> Inl fin
      | Inr st' \<Rightarrow> (case fetch_step lib u token st' of Inl fin \<Rightarrow> Inl fin | Inr st'' \<Rightarrow> Inr st''))"
proof (induction k arbitrary: st)
  case 0
  show ?case by (simp split: sum.splits)
next
  case (Suc k)
  show ?case
  proof (cases "fetch_step lib u token st")
    case (Inl f)
    then show ?thesis by simp
  next
    case (Inr st')
    then show ?thesis using Suc [of st'] by simp
  qed
qed

lemma asked_nth:
  "asked u token v xs \<Longrightarrow> i < length xs \<Longrightarrow>
     fst (xs ! i) = request_of u token (foldl advance v (take i xs))"
proof (induction xs arbitrary: v i)
  case Nil
  then show ?case by simp
next
  case (Cons x xs)
  then show ?case by (cases i) auto
qed

lemma run_asked: "run u token v xs res \<Longrightarrow> asked u token v xs"
proof (induction xs arbitrary: v)
  case Nil
  show ?case by simp
next
  case (Cons x xs)
  show ?case
  proof (cases "xs = []")
    case True
    with Cons(2) show ?thesis by simp
  next
    case False
    with Cons(2) have "fst x = request_of u token v" "run u token (advance v x) xs res"
      by (auto split: if_splits)
    with Cons(1) show ?thesis by simp
  qed
qed

lemma rounds_Inr:
  "rounds lib u token k (v, w) = Inr (v', w') \<Longrightarrow>
     \<exists>xs. log w' = log w @ xs \<and> length xs = k \<and> v' = foldl advance v xs \<and> files w' = files w
        \<and> asked u token v xs \<and> (\<forall>x \<in> set xs. \<not> failed (snd x))"
proof (induction k arbitrary: v w)
  case 0
  then show ?case by simp
next
  case (Suc k)
  show ?case
  proof (cases "fetch_step lib u token (v, w)")
    case (Inl f)
    with Suc(2) show ?thesis by simp
  next
    case (Inr st1)
    obtain v1 w1 where st1: "st1 = (v1, w1)" by (cases st1)
    from Suc(2) Inr st1 have "rounds lib u token k (v1, w1) = Inr (v', w')" by simp
    from Suc(1) [OF this] obtain xs where xs: "log w' = log w1 @ xs" "length xs = k"
        "v' = foldl advance v1 xs" "files w' = files w1" "asked u token v1 xs"
        "\<forall>x \<in> set xs. \<not> failed (snd x)"
      by blast
    from fetch_step_Inr [OF Inr [unfolded st1]] obtain x where x: "log w1 = log w @ [x]"
        "fst x = request_of u token v" "\<not> failed (snd x)" "v1 = advance v x" "files w1 = files w"
      by blast
    have "log w' = log w @ (x # xs) \<and> length (x # xs) = Suc k \<and> v' = foldl advance v (x # xs)
        \<and> files w' = files w \<and> asked u token v (x # xs) \<and> (\<forall>y \<in> set (x # xs). \<not> failed (snd y))"
      using x xs by simp
    then show ?thesis by (rule exI [of _ "x # xs"])
  qed
qed

lemma sent_rounds:
  "\<exists>xs. sent (rounds lib u token k (v, w)) = log w @ xs \<and> asked u token v xs"
proof (cases "rounds lib u token k (v, w)")
  case (Inl fin)
  obtain res w' where fin: "fin = (res, w')" by (cases fin)
  from rounds_Inl [OF Inl] fin have "fetch_loop lib u token (v, w) = Some (res, w')" by simp
  from fetch_loop_run [OF this] obtain xs where "log w' = log w @ xs" "run u token v xs res"
    by auto
  with Inl fin run_asked show ?thesis by (auto simp: sent_def)
next
  case (Inr st)
  obtain v' w' where st: "st = (v', w')" by (cases st)
  from rounds_Inr [OF Inr [unfolded st]] Inr st show ?thesis by (auto simp: sent_def)
qed

lemma step_sends:
  assumes "positive (remaining v)"
  shows "\<exists>y. (case fetch_step lib u token (v, w) of Inl (res, w1) \<Rightarrow> log w1 | Inr (v1, w1) \<Rightarrow> log w1)
            = log w @ [y]"
proof (cases "fetch_step lib u token (v, w)")
  case (Inl fin)
  obtain res w1 where fin: "fin = (res, w1)" by (cases fin)
  from fetch_step_Inl [OF Inl [unfolded fin]] assms Inl fin show ?thesis by auto
next
  case (Inr st)
  obtain v1 w1 where st: "st = (v1, w1)" by (cases st)
  from fetch_step_Inr [OF Inr [unfolded st]] Inr st show ?thesis by auto
qed

declare rounds.simps(2) [simp del]

lemma sent_grows:
  assumes "sent (rounds lib u token (Suc k) st) = sent (rounds lib u token k st) @ [x]"
  shows "\<exists>vk wk. rounds lib u token k st = Inr (vk, wk) \<and>
          rounds lib u token (Suc k) st
            = (case fetch_step lib u token (vk, wk) of Inl fin \<Rightarrow> Inl fin | Inr st' \<Rightarrow> Inr st') \<and>
          (case fetch_step lib u token (vk, wk) of
             Inl (res, w1) \<Rightarrow> log w1 = log wk @ [x]
           | Inr (v1, w1) \<Rightarrow> log w1 = log wk @ [x])"
proof (cases "rounds lib u token k st")
  case (Inl fin)
  then have "rounds lib u token (Suc k) st = Inl fin" by (simp add: rounds_Suc_end)
  with Inl assms show ?thesis by simp
next
  case (Inr sk)
  obtain vk wk where sk: "sk = (vk, wk)" by (cases sk)
  have e: "rounds lib u token (Suc k) st
            = (case fetch_step lib u token (vk, wk) of Inl fin \<Rightarrow> Inl fin | Inr st' \<Rightarrow> Inr st')"
    using Inr sk by (simp add: rounds_Suc_end)
  have "case fetch_step lib u token (vk, wk) of
             Inl (res, w1) \<Rightarrow> log w1 = log wk @ [x]
           | Inr (v1, w1) \<Rightarrow> log w1 = log wk @ [x]"
    using assms unfolding e using Inr sk
    by (auto simp: sent_def split: sum.splits)
  with Inr sk e show ?thesis by blast
qed

lemma rounds_failed:
  assumes g: "sent (rounds lib u token (Suc k) (v, w)) = sent (rounds lib u token k (v, w)) @ [x]"
    and f: "failed (snd x)"
  shows "\<exists>w'. fetch_loop lib u token (v, w) = Some (Inl (SystemExit 1), w')
           \<and> log w' = sent (rounds lib u token (Suc k) (v, w)) \<and> files w' = files w
           \<and> (\<exists>pre. stdout w' = pre @ error_lines (snd x))"
proof -
  from sent_grows [OF g] obtain vk wk where rk: "rounds lib u token k (v, w) = Inr (vk, wk)"
    and e: "rounds lib u token (Suc k) (v, w)
            = (case fetch_step lib u token (vk, wk) of Inl fin \<Rightarrow> Inl fin | Inr st' \<Rightarrow> Inr st')"
    and c: "case fetch_step lib u token (vk, wk) of
             Inl (res, w1) \<Rightarrow> log w1 = log wk @ [x]
           | Inr (v1, w1) \<Rightarrow> log w1 = log wk @ [x]"
    by blast
  from rounds_Inr [OF rk] have fk: "files wk = files w" by blast
  show ?thesis
  proof (cases "fetch_step lib u token (vk, wk)")
    case (Inr s1)
    obtain v1 w1 where s1: "s1 = (v1, w1)" by (cases s1)
    from fetch_step_Inr [OF Inr [unfolded s1]] c Inr s1 f show ?thesis by auto
  next
    case (Inl fin)
    obtain res w1 where fin: "fin = (res, w1)" by (cases fin)
    from c Inl fin have l: "log w1 = log wk @ [x]" by simp
    from fetch_step_Inl [OF Inl [unfolded fin]] l f
    have r: "res = Inl (SystemExit 1)" "stdout w1 = stdout wk @ error_lines (snd x)"
        "files w1 = files wk"
      by auto
    from e Inl fin have r1: "rounds lib u token (Suc k) (v, w) = Inl (res, w1)" by simp
    from rounds_Inl [OF r1] have "fetch_loop lib u token (v, w) = Some (res, w1)" .
    moreover have "log w1 = sent (rounds lib u token (Suc k) (v, w))" by (simp add: r1 sent_def)
    ultimately have "fetch_loop lib u token (v, w) = Some (Inl (SystemExit 1), w1)
           \<and> log w1 = sent (rounds lib u token (Suc k) (v, w)) \<and> files w1 = files w
           \<and> (\<exists>pre. stdout w1 = pre @ error_lines (snd x))"
      using r fk by auto
    then show ?thesis by (rule exI [of _ w1])
  qed
qed

lemma rounds_stop:
  assumes g: "sent (rounds lib u token (Suc k) (v, w)) = sent (rounds lib u token k (v, w)) @ [x]"
    and nf: "\<not> failed (snd x)"
    and s: "sent (rounds lib u token k (v, w)) = log w @ xs"
  shows "(page x = [] \<or> int (length (page x)) < req_limit (fst x)
           \<or> \<not> positive (minus_len (remaining v) (length (concat (map page (xs @ [x]))))) \<longrightarrow>
          sent (rounds lib u token (Suc (Suc k)) (v, w)) = log w @ xs @ [x]
          \<and> (\<exists>w'. fetch_loop lib u token (v, w)
                    = Some (Inr (all_messages v @ concat (map page (xs @ [x]))), w')
                \<and> log w' = log w @ xs @ [x]))
       \<and> (\<not> (page x = [] \<or> int (length (page x)) < req_limit (fst x)
           \<or> \<not> positive (minus_len (remaining v) (length (concat (map page (xs @ [x])))))) \<longrightarrow>
          (\<exists>y. sent (rounds lib u token (Suc (Suc k)) (v, w)) = log w @ xs @ [x, y]))"
proof -
  from sent_grows [OF g] obtain vk wk where rk: "rounds lib u token k (v, w) = Inr (vk, wk)"
    and e: "rounds lib u token (Suc k) (v, w)
            = (case fetch_step lib u token (vk, wk) of Inl fin \<Rightarrow> Inl fin | Inr st' \<Rightarrow> Inr st')"
    and c: "case fetch_step lib u token (vk, wk) of
             Inl (res, w1) \<Rightarrow> log w1 = log wk @ [x]
           | Inr (v1, w1) \<Rightarrow> log w1 = log wk @ [x]"
    by blast
  from rk s have lk: "log wk = log w @ xs" by (simp add: sent_def)
  from rounds_Inr [OF rk] lk have vk: "vk = foldl advance v xs" by auto
  have am: "all_messages vk = all_messages v @ concat (map page xs)"
    unfolding vk by (rule foldl_advance(2))
  have rm: "remaining (advance vk x)
      = minus_len (remaining v) (length (concat (map page (xs @ [x]))))"
    using foldl_advance(1) [of v "xs @ [x]"] by (simp add: vk)
  show ?thesis
  proof (cases "fetch_step lib u token (vk, wk)")
    case (Inl fin)
    obtain res w1 where fin: "fin = (res, w1)" by (cases fin)
    from c Inl fin have l: "log w1 = log wk @ [x]" by simp
    from fetch_step_Inl [OF Inl [unfolded fin]] l nf
    have q: "fst x = request_of u token vk"
      and r: "(page x = [] \<and> res = Inr (all_messages vk))
        \<or> (page x \<noteq> [] \<and> int (length (page x)) < min_100 (remaining vk)
            \<and> res = Inr (all_messages (advance vk x)))"
      by (auto split: if_splits)
    have rl: "req_limit (fst x) = min_100 (remaining vk)" unfolding q by (simp add: request_of_def)
    from r have res: "res = Inr (all_messages v @ concat (map page (xs @ [x])))"
      by (auto simp: am advance_def)
    from r rl have cond: "page x = [] \<or> int (length (page x)) < req_limit (fst x)" by auto
    from e Inl fin have r1: "rounds lib u token (Suc k) (v, w) = Inl (res, w1)" by simp
    then have r2: "rounds lib u token (Suc (Suc k)) (v, w) = Inl (res, w1)"
      by (simp add: rounds_Suc_end [of lib u token "Suc k"])
    from rounds_Inl [OF r1] have fl: "fetch_loop lib u token (v, w) = Some (res, w1)" .
    have "fetch_loop lib u token (v, w)
                    = Some (Inr (all_messages v @ concat (map page (xs @ [x]))), w1)
                \<and> log w1 = log w @ xs @ [x]"
      using fl res l lk by simp
    then have "\<exists>w'. fetch_loop lib u token (v, w)
                    = Some (Inr (all_messages v @ concat (map page (xs @ [x]))), w')
                \<and> log w' = log w @ xs @ [x]"
      by (rule exI [of _ w1])
    moreover have "sent (rounds lib u token (Suc (Suc k)) (v, w)) = log w @ xs @ [x]"
      using r2 l lk by (simp add: sent_def)
    ultimately show ?thesis using cond by blast
  next
    case (Inr s1)
    obtain v1 w1 where s1: "s1 = (v1, w1)" by (cases s1)
    from c Inr s1 have l: "log w1 = log wk @ [x]" by simp
    from fetch_step_Inr [OF Inr [unfolded s1]] l
    have q: "fst x = request_of u token vk" and p: "page x \<noteq> []"
      and ns: "\<not> int (length (page x)) < min_100 (remaining vk)" and v1: "v1 = advance vk x"
      by auto
    have rl: "req_limit (fst x) = min_100 (remaining vk)" unfolding q by (simp add: request_of_def)
    from e Inr s1 have r1: "rounds lib u token (Suc k) (v, w) = Inr (v1, w1)" by simp
    have r2: "rounds lib u token (Suc (Suc k)) (v, w)
        = (case fetch_step lib u token (v1, w1) of Inl fin \<Rightarrow> Inl fin | Inr st' \<Rightarrow> Inr st')"
      using r1 by (simp add: rounds_Suc_end [of lib u token "Suc k"])
    have rv1: "remaining v1 = minus_len (remaining v) (length (concat (map page (xs @ [x]))))"
      unfolding v1 by (rule rm)
    show ?thesis
    proof (cases "positive (remaining v1)")
      case True
      from step_sends [OF True, of lib u token w1] obtain y where
        "(case fetch_step lib u token (v1, w1) of Inl (res, w2) \<Rightarrow> log w2 | Inr (v2, w2) \<Rightarrow> log w2)
            = log w1 @ [y]"
        by blast
      then have "sent (rounds lib u token (Suc (Suc k)) (v, w)) = log w @ xs @ [x, y]"
        unfolding r2 using l lk by (auto simp: sent_def split: sum.splits)
      then have "\<exists>y. sent (rounds lib u token (Suc (Suc k)) (v, w)) = log w @ xs @ [x, y]"
        by (rule exI [of _ y])
      with True p ns rl rv1 show ?thesis by auto
    next
      case False
      then have fs: "fetch_step lib u token (v1, w1) = Inl (Inr (all_messages v1), w1)"
        by (simp add: fetch_step_def)
      with r2 have r2': "rounds lib u token (Suc (Suc k)) (v, w) = Inl (Inr (all_messages v1), w1)"
        by simp
      from rounds_Inl [OF r2'] have fl: "fetch_loop lib u token (v, w) = Some (Inr (all_messages v1), w1)" .
      have a1: "all_messages v1 = all_messages v @ concat (map page (xs @ [x]))"
        unfolding v1 by (simp add: advance_def am)
      have "fetch_loop lib u token (v, w)
                    = Some (Inr (all_messages v @ concat (map page (xs @ [x]))), w1)
                \<and> log w1 = log w @ xs @ [x]"
        using fl a1 l lk by simp
      then have "\<exists>w'. fetch_loop lib u token (v, w)
                    = Some (Inr (all_messages v @ concat (map page (xs @ [x]))), w')
                \<and> log w' = log w @ xs @ [x]"
        by (rule exI [of _ w1])
      moreover have "sent (rounds lib u token (Suc (Suc k)) (v, w)) = log w @ xs @ [x]"
        using r2' l lk by (simp add: sent_def)
      ultimately show ?thesis using False rv1 by simp
    qed
  qed
qed

lemma rounds_requests:
  "\<exists>xs. sent (rounds lib u token k (v, w)) = log w @ xs
      \<and> (\<forall>i<length xs. fst (xs ! i) = request_of u token (foldl advance v (take i xs)))"
proof -
  from sent_rounds [of lib u token k v w] obtain xs where
    xs: "sent (rounds lib u token k (v, w)) = log w @ xs" "asked u token v xs"
    by blast
  have "\<forall>i<length xs. fst (xs ! i) = request_of u token (foldl advance v (take i xs))"
    using asked_nth [OF xs(2)] by blast
  with xs(1) show ?thesis by blast
qed

lemma rounds_first:
  assumes "positive (remaining v)"
  shows "\<exists>x. sent (rounds lib u token (Suc 0) (v, w)) = log w @ [x]"
proof -
  from step_sends [OF assms, of lib u token w] obtain y where
    "(case fetch_step lib u token (v, w) of Inl (res, w1) \<Rightarrow> log w1 | Inr (v1, w1) \<Rightarrow> log w1)
            = log w @ [y]"
    by blast
  then have "sent (rounds lib u token (Suc 0) (v, w)) = log w @ [y]"
    by (auto simp: sent_def rounds.simps split: sum.splits)
  then show ?thesis by (rule exI [of _ y])
qed

lemma numbered_page_length: "length (numbered_page s k) = k"
  by (simp add: numbered_page_def)

lemma numbered_page_Nil: "numbered_page s k = [] \<longleftrightarrow> k = 0"
  by (simp add: numbered_page_def)

lemma numbered_page_last:
  "0 < k \<Longrightarrow> msg_id (last (numbered_page s k)) = str_nat (100000 - s - (k - 1))"
  by (simp add: numbered_page_def last_map demo_message_def)

lemma step_failed:
  assumes "positive (remaining v)"
    and "api lib (server w) (request_of u token v) = (reply, s)" and "failed reply"
  shows "\<exists>w1. fetch_step lib u token (v, w) = Inl (Inl (SystemExit 1), w1)
           \<and> log w1 = log w @ [(request_of u token v, reply)] \<and> files w1 = files w
           \<and> stdout w1 = stdout w @ error_lines reply"
  using assms
  by (auto simp: fetch_step_def Let_def request_of_def failed_def error_lines_def print_def
      split: sum.splits)

lemma fetch_rounds_requests:
  "\<exists>xs. sent (fetch_rounds lib channel_id token lim w k) = log w @ xs
      \<and> (\<forall>i<length xs.
            req_limit (fst (xs ! i))
              = min_100 (minus_len lim (length (concat (map page (take i xs)))))
            \<and> (i = 0 \<longrightarrow> before (fst (xs ! i)) = None)
            \<and> (0 < i \<and> msg_id (last (page (xs ! (i - 1)))) \<noteq> '''' \<longrightarrow>
                 before (fst (xs ! i)) = Some (msg_id (last (page (xs ! (i - 1)))))))"
proof -
  let ?U = "''https://discord.com/api/v10/channels/'' @ channel_id @ ''/messages''"
  let ?init = "\<lparr>all_messages = [], remaining = lim, last_message_id = None\<rparr>"
  let ?w0 = "print (''Fetching messages from channel '' @ channel_id @ ''...'') w"
  from rounds_requests [of lib ?U token k ?init ?w0] obtain xs where
    s: "sent (rounds lib ?U token k (?init, ?w0)) = log ?w0 @ xs"
    and q: "\<forall>i<length xs. fst (xs ! i) = request_of ?U token (foldl advance ?init (take i xs))"
    by blast
  have s': "sent (fetch_rounds lib channel_id token lim w k) = log w @ xs"
    using s by (simp add: fetch_rounds_def print_def)
  have "req_limit (fst (xs ! i))
              = min_100 (minus_len lim (length (concat (map page (take i xs)))))
            \<and> (i = 0 \<longrightarrow> before (fst (xs ! i)) = None)
            \<and> (0 < i \<and> msg_id (last (page (xs ! (i - 1)))) \<noteq> '''' \<longrightarrow>
                 before (fst (xs ! i)) = Some (msg_id (last (page (xs ! (i - 1))))))"
    if i: "i < length xs" for i
  proof -
    let ?cur = "foldl advance ?init (take i xs)"
    from q i have e: "fst (xs ! i) = request_of ?U token ?cur" by blast
    have rem: "remaining ?cur = minus_len lim (length (concat (map page (take i xs))))"
      by (simp add: foldl_advance(1))
    have lid: "last_message_id ?cur =
        (if i = 0 then None else Some (msg_id (last (page (xs ! (i - 1))))))"
      using i by (auto simp: foldl_advance(3) last_take)
    show ?thesis unfolding e by (simp add: request_of_def rem lid)
  qed
  with s' show ?thesis by blast
qed

lemma fetch_rounds_first:
  assumes "positive lim"
  shows "\<exists>x. sent (fetch_rounds lib channel_id token lim w (Suc 0)) = log w @ [x]"
  using rounds_first [of "\<lparr>all_messages = [], remaining = lim, last_message_id = None\<rparr>" lib
      "''https://discord.com/api/v10/channels/'' @ channel_id @ ''/messages''" token
      "print (''Fetching messages from channel '' @ channel_id @ ''...'') w"] assms
  by (simp add: fetch_rounds_def print_def)

lemma fetch_messages_rounds:
  "fetch_messages lib channel_id token lim w = Some fin
     \<longleftrightarrow> (\<exists>j. fetch_rounds lib channel_id token lim w j = Inl fin)"
  unfolding fetch_messages_def fetch_rounds_def Let_def
  using rounds_Inl loop_rounds by blast

lemma fetch_rounds_stop:
  assumes s: "sent (fetch_rounds lib channel_id token lim w k) = log w @ xs"
    and g: "sent (fetch_rounds lib channel_id token lim w (Suc k)) = log w @ xs @ [x]"
    and nf: "\<not> failed (snd x)"
  shows "(page x = [] \<or> int (length (page x)) < req_limit (fst x)
           \<or> \<not> positive (minus_len lim (length (concat (map page (xs @ [x]))))) \<longrightarrow>
          sent (fetch_rounds lib channel_id token lim w (Suc (Suc k))) = log w @ xs @ [x]
          \<and> (\<exists>w'. fetch_messages lib channel_id token lim w
                    = Some (Inr (concat (map page (xs @ [x]))), w')
                \<and> log w' = log w @ xs @ [x]))
       \<and> (\<not> (page x = [] \<or> int (length (page x)) < req_limit (fst x)
           \<or> \<not> positive (minus_len lim (length (concat (map page (xs @ [x])))))) \<longrightarrow>
          (\<exists>y. sent (fetch_rounds lib channel_id token lim w (Suc (Suc k))) = log w @ xs @ [x, y]))"
proof -
  let ?U = "''https://discord.com/api/v10/channels/'' @ channel_id @ ''/messages''"
  let ?init = "\<lparr>all_messages = [], remaining = lim, last_message_id = None\<rparr>"
  let ?w0 = "print (''Fetching messages from channel '' @ channel_id @ ''...'') w"
  have l: "log ?w0 = log w" by (simp add: print_def)
  have s': "sent (rounds lib ?U token k (?init, ?w0)) = log ?w0 @ xs"
    using s unfolding fetch_rounds_def l .
  have g': "sent (rounds lib ?U token (Suc k) (?init, ?w0))
      = sent (rounds lib ?U token k (?init, ?w0)) @ [x]"
    using g s unfolding fetch_rounds_def by simp
  from rounds_stop [OF g' nf s'] show ?thesis
    unfolding fetch_rounds_def fetch_messages_def Let_def l by simp
qed

text \<open>
  Claim C4.  Whatever the limit, and however far the run has come (\<open>k\<close> rounds of the
  loop, whether the run has ended by then or not), request \<open>i\<close> of the requests sent so
  far asks for \<open>min(remaining, 100)\<close> messages: with an integer limit \<open>n\<close> that is \<open>n\<close> less
  the messages of the pages before it, or 100 if that is more, and with the limit
  \<^verbatim>\<open>all\<close> it is 100.  The first request carries no cursor; every later request carries
  as \<^verbatim>\<open>before\<close> the identifier of the last message of the page before it, identifiers
  being texts that are not empty.  With a positive integer limit, and with the limit
  \<^verbatim>\<open>all\<close>, the first round does send a request.  \<open>fetch_messages\<close> returns exactly what
  some number of rounds ends with, and with an integer limit it always returns, so the
  above covers the requests of the whole run.  With the limit 250, when the first two
  pages hold 100 messages each, exactly three requests are sent, of the sizes 100, 100
  and 50, the second and the third with the identifier of the last message of the page
  before.
\<close>

theorem fetch_messages_cursors:
  "(\<exists>xs. sent (fetch_rounds lib channel_id token lim w k) = log w @ xs
       \<and> (\<forall>i<length xs.
             req_limit (fst (xs ! i))
               = (case lim of
                    Bounded n \<Rightarrow> min (n - int (length (concat (map page (take i xs))))) 100
                  | Unbounded \<Rightarrow> 100)
             \<and> (i = 0 \<longrightarrow> before (fst (xs ! i)) = None)
             \<and> (0 < i \<and> msg_id (last (page (xs ! (i - 1)))) \<noteq> '''' \<longrightarrow>
                  before (fst (xs ! i)) = Some (msg_id (last (page (xs ! (i - 1))))))))
   \<and> (0 < n \<longrightarrow>
        (\<exists>x. sent (fetch_rounds lib channel_id token (Bounded n) w (Suc 0)) = log w @ [x]))
   \<and> (\<exists>x. sent (fetch_rounds lib channel_id token Unbounded w (Suc 0)) = log w @ [x])
   \<and> (fetch_messages lib channel_id token lim w = Some fin
        \<longleftrightarrow> (\<exists>j. fetch_rounds lib channel_id token lim w j = Inl fin))
   \<and> (\<exists>res w' xs. fetch_messages lib channel_id token (Bounded n) w = Some (res, w')
       \<and> log w' = log w @ xs
       \<and> (\<forall>i<length xs.
             req_limit (fst (xs ! i))
               = min (n - int (length (concat (map page (take i xs))))) 100
             \<and> (i = 0 \<longrightarrow> before (fst (xs ! i)) = None)
             \<and> (0 < i \<and> msg_id (last (page (xs ! (i - 1)))) \<noteq> '''' \<longrightarrow>
                  before (fst (xs ! i)) = Some (msg_id (last (page (xs ! (i - 1))))))))
   \<and> (api lib (server w)
         \<lparr>url = ''https://discord.com/api/v10/channels/'' @ channel_id @ ''/messages'',
           authorization = token, req_limit = 100, before = None\<rparr> = (Inr r1, s1)
       \<and> status_code r1 = 200 \<and> length (json r1) = 100 \<and> msg_id (last (json r1)) \<noteq> ''''
       \<and> api lib s1
           \<lparr>url = ''https://discord.com/api/v10/channels/'' @ channel_id @ ''/messages'',
             authorization = token, req_limit = 100,
             before = Some (msg_id (last (json r1)))\<rparr> = (Inr r2, s2)
       \<and> status_code r2 = 200 \<and> length (json r2) = 100 \<and> msg_id (last (json r2)) \<noteq> ''''
       \<longrightarrow> (\<exists>res w'. fetch_messages lib channel_id token (Bounded 250) w = Some (res, w')
              \<and> map fst (drop (length (log w)) (log w'))
                  = [\<lparr>url = ''https://discord.com/api/v10/channels/'' @ channel_id @ ''/messages'',
                       authorization = token, req_limit = 100, before = None\<rparr>,
                     \<lparr>url = ''https://discord.com/api/v10/channels/'' @ channel_id @ ''/messages'',
                       authorization = token, req_limit = 100,
                       before = Some (msg_id (last (json r1)))\<rparr>,
                     \<lparr>url = ''https://discord.com/api/v10/channels/'' @ channel_id @ ''/messages'',
                       authorization = token, req_limit = 50,
                       before = Some (msg_id (last (json r2)))\<rparr>]))"
proof (intro conjI)
  show "\<exists>xs. sent (fetch_rounds lib channel_id token lim w k) = log w @ xs
       \<and> (\<forall>i<length xs.
             req_limit (fst (xs ! i))
               = (case lim of
                    Bounded n \<Rightarrow> min (n - int (length (concat (map page (take i xs))))) 100
                  | Unbounded \<Rightarrow> 100)
             \<and> (i = 0 \<longrightarrow> before (fst (xs ! i)) = None)
             \<and> (0 < i \<and> msg_id (last (page (xs ! (i - 1)))) \<noteq> '''' \<longrightarrow>
                  before (fst (xs ! i)) = Some (msg_id (last (page (xs ! (i - 1)))))))"
  proof -
    have m: "min_100 (minus_len lim j)
        = (case lim of Bounded n \<Rightarrow> min (n - int j) 100 | Unbounded \<Rightarrow> 100)" for j
      by (cases lim) simp_all
    show ?thesis using fetch_rounds_requests [of lib channel_id token lim w k] unfolding m .
  qed
  show "0 < n \<longrightarrow>
        (\<exists>x. sent (fetch_rounds lib channel_id token (Bounded n) w (Suc 0)) = log w @ [x])"
    using fetch_rounds_first [of "Bounded n" lib channel_id token w] by simp
  show "\<exists>x. sent (fetch_rounds lib channel_id token Unbounded w (Suc 0)) = log w @ [x]"
    using fetch_rounds_first [of Unbounded lib channel_id token w] by simp
  show "fetch_messages lib channel_id token lim w = Some fin
        \<longleftrightarrow> (\<exists>j. fetch_rounds lib channel_id token lim w j = Inl fin)"
    by (rule fetch_messages_rounds)
  show "\<exists>res w' xs. fetch_messages lib channel_id token (Bounded n) w = Some (res, w')
       \<and> log w' = log w @ xs
       \<and> (\<forall>i<length xs.
             req_limit (fst (xs ! i))
               = min (n - int (length (concat (map page (take i xs))))) 100
             \<and> (i = 0 \<longrightarrow> before (fst (xs ! i)) = None)
             \<and> (0 < i \<and> msg_id (last (page (xs ! (i - 1)))) \<noteq> '''' \<longrightarrow>
                  before (fst (xs ! i)) = Some (msg_id (last (page (xs ! (i - 1)))))))"
  proof -
    obtain res w' where f: "fetch_messages lib channel_id token (Bounded n) w = Some (res, w')"
      using fetch_messages_terminates [of lib channel_id token n w] by (cases) auto
    from fetch_messages_run [OF f] obtain xs where l: "log w' = log w @ xs" by blast
    have "\<forall>i<length xs.
             req_limit (fst (xs ! i))
               = min (n - int (length (concat (map page (take i xs))))) 100
             \<and> (i = 0 \<longrightarrow> before (fst (xs ! i)) = None)
             \<and> (0 < i \<and> msg_id (last (page (xs ! (i - 1)))) \<noteq> '''' \<longrightarrow>
                  before (fst (xs ! i)) = Some (msg_id (last (page (xs ! (i - 1))))))"
      using fetch_messages_requests(1,2) [OF f l] by simp
    with f l show ?thesis by blast
  qed
  show "api lib (server w)
         \<lparr>url = ''https://discord.com/api/v10/channels/'' @ channel_id @ ''/messages'',
           authorization = token, req_limit = 100, before = None\<rparr> = (Inr r1, s1)
       \<and> status_code r1 = 200 \<and> length (json r1) = 100 \<and> msg_id (last (json r1)) \<noteq> ''''
       \<and> api lib s1
           \<lparr>url = ''https://discord.com/api/v10/channels/'' @ channel_id @ ''/messages'',
             authorization = token, req_limit = 100,
             before = Some (msg_id (last (json r1)))\<rparr> = (Inr r2, s2)
       \<and> status_code r2 = 200 \<and> length (json r2) = 100 \<and> msg_id (last (json r2)) \<noteq> ''''
       \<longrightarrow> (\<exists>res w'. fetch_messages lib channel_id token (Bounded 250) w = Some (res, w')
              \<and> map fst (drop (length (log w)) (log w'))
                  = [\<lparr>url = ''https://discord.com/api/v10/channels/'' @ channel_id @ ''/messages'',
                       authorization = token, req_limit = 100, before = None\<rparr>,
                     \<lparr>url = ''https://discord.com/api/v10/channels/'' @ channel_id @ ''/messages'',
                       authorization = token, req_limit = 100,
                       before = Some (msg_id (last (json r1)))\<rparr>,
                     \<lparr>url = ''https://discord.com/api/v10/channels/'' @ channel_id @ ''/messages'',
                       authorization = token, req_limit = 50,
                       before = Some (msg_id (last (json r2)))\<rparr>])"
    using fetch_250 [of lib w channel_id token r1 s1 r2 s2] by blast
qed

theorem fetch_messages_cursors_witness:
  "cursors (fetch_messages counting_lib ''c'' ''t'' (Bounded 250) counting_world)
     = [(100, None), (100, Some ''99901''), (50, Some ''99801'')]
   \<and> map (\<lambda>x. (req_limit (fst x), before (fst x)))
        (sent (fetch_rounds counting_lib ''c'' ''t'' Unbounded counting_world (Suc (Suc (Suc 0)))))
     = [(100, None), (100, Some ''99901''), (100, Some ''99801'')]
   \<and> cursors (fetch_messages counting_lib ''c'' ''t'' (Bounded 101) counting_world)
     = [(100, None), (1, Some ''99901'')]
   \<and> (\<exists>j fin. fetch_rounds counting_lib ''c'' ''t'' (Bounded 101) counting_world j = Inl fin)
   \<and> (\<exists>x. sent (fetch_rounds counting_lib ''c'' ''t'' (Bounded 250) counting_world (Suc 0)) = [x])
   \<and> (\<exists>x. sent (fetch_rounds counting_lib ''c'' ''t'' Unbounded counting_world (Suc 0)) = [x])"
proof -
  have p1: "cursors (fetch_messages counting_lib ''c'' ''t'' (Bounded 250) counting_world)
     = [(100, None), (100, Some ''99901''), (50, Some ''99801'')]"
  proof -
  let ?r1 = "\<lparr>status_code = 200, json = numbered_page 0 100, resp_text = ''''\<rparr>"
  let ?r2 = "\<lparr>status_code = 200, json = numbered_page 100 100, resp_text = ''''\<rparr>"
  have h: "api counting_lib (server counting_world)
         \<lparr>url = ''https://discord.com/api/v10/channels/'' @ ''c'' @ ''/messages'',
           authorization = ''t'', req_limit = 100, before = None\<rparr> = (Inr ?r1, 100)
       \<and> status_code ?r1 = 200 \<and> length (json ?r1) = 100 \<and> msg_id (last (json ?r1)) \<noteq> ''''
       \<and> api counting_lib 100
           \<lparr>url = ''https://discord.com/api/v10/channels/'' @ ''c'' @ ''/messages'',
             authorization = ''t'', req_limit = 100,
             before = Some (msg_id (last (json ?r1)))\<rparr> = (Inr ?r2, 200)
       \<and> status_code ?r2 = 200 \<and> length (json ?r2) = 100 \<and> msg_id (last (json ?r2)) \<noteq> ''''"
    by (simp add: counting_lib_def counting_world_def numbered_page_length numbered_page_last
        str_nat.simps)
  have "\<exists>res w'. fetch_messages counting_lib ''c'' ''t'' (Bounded 250) counting_world
            = Some (res, w')
      \<and> map fst (drop (length (log counting_world)) (log w'))
       = [\<lparr>url = ''https://discord.com/api/v10/channels/'' @ ''c'' @ ''/messages'',
            authorization = ''t'', req_limit = 100, before = None\<rparr>,
          \<lparr>url = ''https://discord.com/api/v10/channels/'' @ ''c'' @ ''/messages'',
            authorization = ''t'', req_limit = 100, before = Some (msg_id (last (json ?r1)))\<rparr>,
          \<lparr>url = ''https://discord.com/api/v10/channels/'' @ ''c'' @ ''/messages'',
            authorization = ''t'', req_limit = 50, before = Some (msg_id (last (json ?r2)))\<rparr>]"
    by (rule fetch_messages_cursors [THEN conjunct2, THEN conjunct2, THEN conjunct2,
          THEN conjunct2, THEN conjunct2, THEN mp, OF h])
  then obtain res w' where
    "fetch_messages counting_lib ''c'' ''t'' (Bounded 250) counting_world = Some (res, w')"
    "map fst (drop (length (log counting_world)) (log w'))
       = [\<lparr>url = ''https://discord.com/api/v10/channels/'' @ ''c'' @ ''/messages'',
            authorization = ''t'', req_limit = 100, before = None\<rparr>,
          \<lparr>url = ''https://discord.com/api/v10/channels/'' @ ''c'' @ ''/messages'',
            authorization = ''t'', req_limit = 100, before = Some (msg_id (last (json ?r1)))\<rparr>,
          \<lparr>url = ''https://discord.com/api/v10/channels/'' @ ''c'' @ ''/messages'',
            authorization = ''t'', req_limit = 50, before = Some (msg_id (last (json ?r2)))\<rparr>]"
    by (elim exE conjE)
  note r = this
  have m: "map (\<lambda>x. (req_limit (fst x), before (fst x))) (log w')
         = map (\<lambda>r. (req_limit r, before r)) (map fst (log w'))"
    by (simp add: comp_def)
  have d: "drop (length (log counting_world)) (log w') = log w'" by (simp add: counting_world_def)
  have "cursors (Some (res, w')) = [(100, None), (100, Some ''99901''), (50, Some ''99801'')]"
    unfolding cursors_def using r(2) [unfolded d]
    by (simp only: m option.case prod.case) (simp add: numbered_page_last str_nat.simps)
  then show ?thesis using r(1) by simp
  qed
  have p2: "map (\<lambda>x. (req_limit (fst x), before (fst x)))
        (sent (fetch_rounds counting_lib ''c'' ''t'' Unbounded counting_world (Suc (Suc (Suc 0)))))
     = [(100, None), (100, Some ''99901''), (100, Some ''99801'')]"
  proof -
  let ?s = "sent (fetch_rounds counting_lib ''c'' ''t'' Unbounded counting_world (Suc (Suc (Suc 0))))"
  from fetch_messages_cursors [THEN conjunct1,
      of counting_lib "''c''" "''t''" Unbounded counting_world "Suc (Suc (Suc 0))"]
  obtain xs where s: "?s = log counting_world @ xs"
    and a: "\<forall>i<length xs.
             req_limit (fst (xs ! i))
               = (case Unbounded of
                    Bounded n \<Rightarrow> min (n - int (length (concat (map page (take i xs))))) 100
                  | Unbounded \<Rightarrow> 100)
             \<and> (i = 0 \<longrightarrow> before (fst (xs ! i)) = None)
             \<and> (0 < i \<and> msg_id (last (page (xs ! (i - 1)))) \<noteq> '''' \<longrightarrow>
                  before (fst (xs ! i)) = Some (msg_id (last (page (xs ! (i - 1))))))"
    by (elim exE conjE)
  have e: "map page ?s = [numbered_page 0 100, numbered_page 100 100, numbered_page 200 100]"
    by (simp add: fetch_rounds_def rounds.simps fetch_step_def Let_def print_def sent_def
        counting_lib_def counting_world_def page_def numbered_page_length numbered_page_Nil)
  from s have sx: "?s = xs" by (simp add: counting_world_def)
  from e have "length xs = Suc (Suc (Suc 0))" unfolding sx by (metis length_map length_Cons list.size(3))
  then obtain x0 x1 x2 where xs: "xs = [x0, x1, x2]"
    by (auto simp: length_Suc_conv)
  from e have p: "page x0 = numbered_page 0 100" "page x1 = numbered_page 100 100"
    unfolding sx xs by simp_all
  from a have "req_limit (fst x0) = 100 \<and> before (fst x0) = None
      \<and> req_limit (fst x1) = 100 \<and> before (fst x1) = Some ''99901''
      \<and> req_limit (fst x2) = 100 \<and> before (fst x2) = Some ''99801''"
    unfolding xs by (simp add: All_less_Suc p numbered_page_last str_nat.simps)
  then show ?thesis unfolding sx xs by simp
  qed
  have p3: "cursors (fetch_messages counting_lib ''c'' ''t'' (Bounded 101) counting_world)
     = [(100, None), (1, Some ''99901'')]"
    and p4: "\<exists>j fin. fetch_rounds counting_lib ''c'' ''t'' (Bounded 101) counting_world j = Inl fin"
  proof -
    from fetch_messages_cursors [THEN conjunct2, THEN conjunct2, THEN conjunct2, THEN conjunct2,
        THEN conjunct1, of counting_lib "''c''" "''t''" 101 counting_world]
    obtain res w' xs where
      f: "fetch_messages counting_lib ''c'' ''t'' (Bounded 101) counting_world = Some (res, w')"
      and l: "log w' = log counting_world @ xs"
      and a: "\<forall>i<length xs.
             req_limit (fst (xs ! i))
               = min (101 - int (length (concat (map page (take i xs))))) 100
             \<and> (i = 0 \<longrightarrow> before (fst (xs ! i)) = None)
             \<and> (0 < i \<and> msg_id (last (page (xs ! (i - 1)))) \<noteq> '''' \<longrightarrow>
                  before (fst (xs ! i)) = Some (msg_id (last (page (xs ! (i - 1))))))"
      by (elim exE conjE)
    have "\<exists>r1 w1. fetch_messages counting_lib ''c'' ''t'' (Bounded 101) counting_world
              = Some (r1, w1)
          \<and> map page (log w1) = [numbered_page 0 100, numbered_page 100 1]"
      by (simp add: fetch_messages_def fetch_loop.simps fetch_step_def Let_def print_def
          counting_lib_def counting_world_def page_def numbered_page_length numbered_page_Nil)
    with f l have e: "map page xs = [numbered_page 0 100, numbered_page 100 1]"
      by (auto simp: counting_world_def)
    then have "length xs = Suc (Suc 0)" by (metis length_map length_Cons list.size(3))
    then obtain x0 x1 where xs: "xs = [x0, x1]"
      by (auto simp: length_Suc_conv)
    from e have p: "page x0 = numbered_page 0 100" unfolding xs by simp
    from a have "req_limit (fst x0) = 100 \<and> before (fst x0) = None
        \<and> req_limit (fst x1) = 1 \<and> before (fst x1) = Some ''99901''"
      unfolding xs by (simp add: All_less_Suc p numbered_page_length numbered_page_last str_nat.simps)
    then show "cursors (fetch_messages counting_lib ''c'' ''t'' (Bounded 101) counting_world)
       = [(100, None), (1, Some ''99901'')]"
      using f l xs by (simp add: cursors_def counting_world_def)
    from fetch_messages_cursors [THEN conjunct2, THEN conjunct2, THEN conjunct2, THEN conjunct1,
        THEN iffD1, OF f]
    show "\<exists>j fin. fetch_rounds counting_lib ''c'' ''t'' (Bounded 101) counting_world j = Inl fin"
      by blast
  qed
  have p5: "\<exists>x. sent (fetch_rounds counting_lib ''c'' ''t'' (Bounded 250) counting_world (Suc 0)) = [x]"
    using fetch_messages_cursors [THEN conjunct2, THEN conjunct1, THEN mp,
        of 250 counting_lib "''c''" "''t''" counting_world]
    by (simp add: counting_world_def)
  have p6: "\<exists>x. sent (fetch_rounds counting_lib ''c'' ''t'' Unbounded counting_world (Suc 0)) = [x]"
    using fetch_messages_cursors [THEN conjunct2, THEN conjunct2, THEN conjunct1,
        of counting_lib "''c''" "''t''" counting_world]
    by (simp add: counting_world_def)
  show ?thesis
    by (intro conjI) (rule p1, rule p2, rule p3, rule p4, rule p5, rule p6)
qed

text \<open>
  Claim C5.  Let round \<open>k + 1\<close> of the loop make the exchange \<open>x\<close>, after the exchanges
  \<open>xs\<close> of the rounds before, and let the page of \<open>x\<close> come with status 200.  If the page
  is empty, or holds fewer messages than were asked for, or the messages received so
  far have reached an integer limit, the run stops there: no further request is sent and
  \<open>fetch_messages\<close> returns the messages of all pages received, in the order received.
  In every other case the next round sends a further request.  With the limit \<^verbatim>\<open>all\<close>
  the third reason does not exist.  With a positive integer limit, and with the limit
  \<^verbatim>\<open>all\<close>, the first round does send a request.  With a limit \<open>n\<close> from 1 to 100 the run
  ends after exactly one request, of size \<open>n\<close> and without cursor; when it returns, it
  returns the messages of that page as they came, so at most \<open>n\<close> of them, the service
  answering a request for \<open>n\<close> messages with at most \<open>n\<close>.
\<close>

theorem fetch_messages_stops:
  "(sent (fetch_rounds lib channel_id token lim w k) = log w @ xs
      \<and> sent (fetch_rounds lib channel_id token lim w (Suc k)) = log w @ xs @ [x]
      \<and> \<not> failed (snd x)
    \<longrightarrow> (if page x = [] \<or> int (length (page x)) < req_limit (fst x)
            \<or> (case lim of
                  Bounded n \<Rightarrow> n \<le> int (length (concat (map page (xs @ [x]))))
                | Unbounded \<Rightarrow> False)
         then sent (fetch_rounds lib channel_id token lim w (Suc (Suc k))) = log w @ xs @ [x]
              \<and> (\<exists>w'. fetch_messages lib channel_id token lim w
                        = Some (Inr (concat (map page (xs @ [x]))), w')
                    \<and> log w' = log w @ xs @ [x])
         else (\<exists>y. sent (fetch_rounds lib channel_id token lim w (Suc (Suc k)))
                      = log w @ xs @ [x, y])))
   \<and> (0 < n \<longrightarrow>
        (\<exists>x. sent (fetch_rounds lib channel_id token (Bounded n) w (Suc 0)) = log w @ [x]))
   \<and> (\<exists>x. sent (fetch_rounds lib channel_id token Unbounded w (Suc 0)) = log w @ [x])
   \<and> (1 \<le> n \<and> n \<le> 100 \<longrightarrow>
        (\<exists>res w' x. fetch_messages lib channel_id token (Bounded n) w = Some (res, w')
            \<and> log w' = log w @ [x] \<and> req_limit (fst x) = n \<and> before (fst x) = None
            \<and> (\<forall>msgs. res = Inr msgs \<longrightarrow>
                  msgs = page x
                  \<and> (int (length (page x)) \<le> req_limit (fst x) \<longrightarrow> int (length msgs) \<le> n))))"
proof (intro conjI impI)
  assume h: "sent (fetch_rounds lib channel_id token lim w k) = log w @ xs
      \<and> sent (fetch_rounds lib channel_id token lim w (Suc k)) = log w @ xs @ [x]
      \<and> \<not> failed (snd x)"
  have m: "(case lim of Bounded n \<Rightarrow> n \<le> int j | Unbounded \<Rightarrow> False)
      \<longleftrightarrow> \<not> positive (minus_len lim j)" for j
    by (cases lim) auto
  from h have s: "sent (fetch_rounds lib channel_id token lim w k) = log w @ xs"
    and g: "sent (fetch_rounds lib channel_id token lim w (Suc k)) = log w @ xs @ [x]"
    and nf: "\<not> failed (snd x)"
    by simp_all
  from fetch_rounds_stop [OF s g nf]
  show "if page x = [] \<or> int (length (page x)) < req_limit (fst x)
            \<or> (case lim of
                  Bounded n \<Rightarrow> n \<le> int (length (concat (map page (xs @ [x]))))
                | Unbounded \<Rightarrow> False)
         then sent (fetch_rounds lib channel_id token lim w (Suc (Suc k))) = log w @ xs @ [x]
              \<and> (\<exists>w'. fetch_messages lib channel_id token lim w
                        = Some (Inr (concat (map page (xs @ [x]))), w')
                    \<and> log w' = log w @ xs @ [x])
         else (\<exists>y. sent (fetch_rounds lib channel_id token lim w (Suc (Suc k)))
                      = log w @ xs @ [x, y])"
    unfolding m by (simp split: if_splits)
next
  assume "0 < n"
  then show "\<exists>x. sent (fetch_rounds lib channel_id token (Bounded n) w (Suc 0)) = log w @ [x]"
    using fetch_rounds_first [of "Bounded n" lib channel_id token w] by simp
next
  show "\<exists>x. sent (fetch_rounds lib channel_id token Unbounded w (Suc 0)) = log w @ [x]"
    using fetch_rounds_first [of Unbounded lib channel_id token w] by simp
next
  assume n: "1 \<le> n \<and> n \<le> 100"
  let ?U = "''https://discord.com/api/v10/channels/'' @ channel_id @ ''/messages''"
  let ?init = "\<lparr>all_messages = [], remaining = Bounded n, last_message_id = None\<rparr>"
  let ?w0 = "print (''Fetching messages from channel '' @ channel_id @ ''...'') w"
  from fetch_loop_last [of ?init n lib ?U token ?w0] n obtain res w' x where
    x: "fetch_loop lib ?U token (?init, ?w0) = Some (res, w')" "log w' = log ?w0 @ [x]"
       "fst x = request_of ?U token ?init"
       "\<forall>msgs. res = Inr msgs \<longrightarrow> msgs = all_messages ?init @ page x"
    by auto
  have c: "fetch_messages lib channel_id token (Bounded n) w = Some (res, w')
            \<and> log w' = log w @ [x] \<and> req_limit (fst x) = n \<and> before (fst x) = None
            \<and> (\<forall>msgs. res = Inr msgs \<longrightarrow>
                  msgs = page x
                  \<and> (int (length (page x)) \<le> req_limit (fst x) \<longrightarrow> int (length msgs) \<le> n))"
    using x n by (simp add: fetch_messages_def request_of_def print_def)
  show "\<exists>res w' x. fetch_messages lib channel_id token (Bounded n) w = Some (res, w')
            \<and> log w' = log w @ [x] \<and> req_limit (fst x) = n \<and> before (fst x) = None
            \<and> (\<forall>msgs. res = Inr msgs \<longrightarrow>
                  msgs = page x
                  \<and> (int (length (page x)) \<le> req_limit (fst x) \<longrightarrow> int (length msgs) \<le> n))"
    by (rule exI [of _ res], rule exI [of _ w'], rule exI [of _ x], rule c)
qed

theorem fetch_messages_stops_witness:
  "cursors (fetch_messages counting_lib ''c'' ''t'' (Bounded 3) counting_world) = [(3, None)]
   \<and> returned (fetch_messages counting_lib ''c'' ''t'' (Bounded 3) counting_world) = Some 3
   \<and> cursors (fetch_messages counting_lib ''c'' ''t'' (Bounded 200) counting_world)
       = [(100, None), (100, Some ''99901'')]
   \<and> returned (fetch_messages counting_lib ''c'' ''t'' (Bounded 200) counting_world) = Some 200
   \<and> cursors (fetch_messages (demo_lib (pages_of 2)) ''c'' ''t'' Unbounded demo_world)
       = [(100, None)]
   \<and> returned (fetch_messages (demo_lib (pages_of 2)) ''c'' ''t'' Unbounded demo_world) = Some 2
   \<and> map (\<lambda>x. (req_limit (fst x), before (fst x)))
       (butlast (sent (fetch_rounds counting_lib ''c'' ''t'' Unbounded counting_world
                        (Suc (Suc (Suc 0))))))
       = [(100, None), (100, Some ''99901'')]
   \<and> length (sent (fetch_rounds counting_lib ''c'' ''t'' Unbounded counting_world
                     (Suc (Suc (Suc 0))))) = 3
   \<and> (\<exists>x. sent (fetch_rounds counting_lib ''c'' ''t'' (Bounded 3) counting_world (Suc 0)) = [x])
   \<and> (\<exists>x. sent (fetch_rounds (demo_lib (pages_of 2)) ''c'' ''t'' Unbounded demo_world (Suc 0))
            = [x])"
proof -
  let ?U = "''https://discord.com/api/v10/channels/c/messages''"
  let ?x0 = "(\<lparr>url = ?U, authorization = ''t'', req_limit = 100, before = None\<rparr>,
              Inr \<lparr>status_code = 200, json = numbered_page 0 100, resp_text = ''''\<rparr>)
             :: exchange"
  let ?x1 = "(\<lparr>url = ?U, authorization = ''t'', req_limit = 100, before = Some ''99901''\<rparr>,
              Inr \<lparr>status_code = 200, json = numbered_page 100 100, resp_text = ''''\<rparr>)
             :: exchange"
  let ?z = "(\<lparr>url = ?U, authorization = ''t'', req_limit = 100, before = None\<rparr>,
             Inr \<lparr>status_code = 200, json = replicate 2 (demo_message ''7''), resp_text = ''''\<rparr>)
            :: exchange"
  have a: "cursors (fetch_messages counting_lib ''c'' ''t'' (Bounded 3) counting_world) = [(3, None)]
      \<and> returned (fetch_messages counting_lib ''c'' ''t'' (Bounded 3) counting_world) = Some 3"
  proof -
    have n: "(1::int) \<le> 3 \<and> (3::int) \<le> 100" by simp
    from fetch_messages_stops [THEN conjunct2, THEN conjunct2, THEN conjunct2, THEN mp, OF n,
        of counting_lib "''c''" "''t''" counting_world]
    obtain res w' x where
      f: "fetch_messages counting_lib ''c'' ''t'' (Bounded 3) counting_world = Some (res, w')"
      and l: "log w' = log counting_world @ [x]"
      and q: "req_limit (fst x) = 3" "before (fst x) = None"
      and r: "\<forall>msgs. res = Inr msgs \<longrightarrow>
                  msgs = page x
                  \<and> (int (length (page x)) \<le> req_limit (fst x) \<longrightarrow> int (length msgs) \<le> 3)"
      by (elim exE conjE)
    have "\<exists>w1. fetch_messages counting_lib ''c'' ''t'' (Bounded 3) counting_world
              = Some (Inr (numbered_page 0 3), w1)"
      by (simp add: fetch_messages_def fetch_loop.simps fetch_step_def Let_def print_def
          counting_lib_def counting_world_def numbered_page_length numbered_page_Nil)
    with f have res: "res = Inr (numbered_page 0 3)" by auto
    from r res have rr: "numbered_page 0 3 = page x
        \<and> (int (length (page x)) \<le> req_limit (fst x) \<longrightarrow>
             int (length (numbered_page 0 3)) \<le> 3)"
      by blast
    then have p: "page x = numbered_page 0 3" by simp
    have "int (length (page x)) \<le> req_limit (fst x)" by (simp add: p q numbered_page_length)
    with rr have "int (length (numbered_page 0 3)) \<le> 3" by blast
    show ?thesis using f l q res
      by (simp add: cursors_def returned_def counting_world_def numbered_page_length)
  qed
  have b: "cursors (fetch_messages counting_lib ''c'' ''t'' (Bounded 200) counting_world)
       = [(100, None), (100, Some ''99901'')]
      \<and> returned (fetch_messages counting_lib ''c'' ''t'' (Bounded 200) counting_world) = Some 200"
  proof -
    have h: "sent (fetch_rounds counting_lib ''c'' ''t'' (Bounded 200) counting_world (Suc 0))
          = log counting_world @ [?x0]
        \<and> sent (fetch_rounds counting_lib ''c'' ''t'' (Bounded 200) counting_world (Suc (Suc 0)))
          = log counting_world @ [?x0] @ [?x1]
        \<and> \<not> failed (snd ?x1)"
      by (simp add: fetch_rounds_def rounds.simps fetch_step_def Let_def print_def sent_def
          counting_lib_def counting_world_def failed_def numbered_page_length numbered_page_Nil
          numbered_page_last str_nat.simps)
    have c: "page ?x1 = [] \<or> int (length (page ?x1)) < req_limit (fst ?x1)
            \<or> (case Bounded 200 of
                  Bounded n \<Rightarrow> n \<le> int (length (concat (map page ([?x0] @ [?x1]))))
                | Unbounded \<Rightarrow> False)"
      by (simp add: page_def numbered_page_length)
    from fetch_messages_stops [THEN conjunct1, THEN mp, OF h] c
    obtain w' where
      "fetch_messages counting_lib ''c'' ''t'' (Bounded 200) counting_world
         = Some (Inr (concat (map page ([?x0] @ [?x1]))), w')"
      "log w' = log counting_world @ [?x0] @ [?x1]"
      by (simp only: if_True) (elim exE conjE)
    then show ?thesis
      by (simp add: cursors_def returned_def counting_world_def page_def numbered_page_length)
  qed
  have c: "cursors (fetch_messages (demo_lib (pages_of 2)) ''c'' ''t'' Unbounded demo_world)
       = [(100, None)]
      \<and> returned (fetch_messages (demo_lib (pages_of 2)) ''c'' ''t'' Unbounded demo_world) = Some 2"
  proof -
    have h: "sent (fetch_rounds (demo_lib (pages_of 2)) ''c'' ''t'' Unbounded demo_world 0)
          = log demo_world @ []
        \<and> sent (fetch_rounds (demo_lib (pages_of 2)) ''c'' ''t'' Unbounded demo_world (Suc 0))
          = log demo_world @ [] @ [?z]
        \<and> \<not> failed (snd ?z)"
      by (simp add: fetch_rounds_def rounds.simps fetch_step_def Let_def print_def sent_def
          demo_lib_def pages_of_def demo_world_def failed_def)
    have c: "page ?z = [] \<or> int (length (page ?z)) < req_limit (fst ?z)
            \<or> (case Unbounded of
                  Bounded n \<Rightarrow> n \<le> int (length (concat (map page ([] @ [?z]))))
                | Unbounded \<Rightarrow> False)"
      by (simp add: page_def)
    from fetch_messages_stops [THEN conjunct1, THEN mp, OF h] c
    obtain w' where
      "fetch_messages (demo_lib (pages_of 2)) ''c'' ''t'' Unbounded demo_world
         = Some (Inr (concat (map page ([] @ [?z]))), w')"
      "log w' = log demo_world @ [] @ [?z]"
      by (simp only: if_True) (elim exE conjE)
    then show ?thesis
      by (simp add: cursors_def returned_def demo_world_def page_def)
  qed
  have d: "map (\<lambda>x. (req_limit (fst x), before (fst x)))
       (butlast (sent (fetch_rounds counting_lib ''c'' ''t'' Unbounded counting_world
                        (Suc (Suc (Suc 0))))))
       = [(100, None), (100, Some ''99901'')]
   \<and> length (sent (fetch_rounds counting_lib ''c'' ''t'' Unbounded counting_world
                     (Suc (Suc (Suc 0))))) = 3"
  proof -
    have h: "sent (fetch_rounds counting_lib ''c'' ''t'' Unbounded counting_world (Suc 0))
          = log counting_world @ [?x0]
        \<and> sent (fetch_rounds counting_lib ''c'' ''t'' Unbounded counting_world (Suc (Suc 0)))
          = log counting_world @ [?x0] @ [?x1]
        \<and> \<not> failed (snd ?x1)"
      by (simp add: fetch_rounds_def rounds.simps fetch_step_def Let_def print_def sent_def
          counting_lib_def counting_world_def failed_def numbered_page_length numbered_page_Nil
          numbered_page_last str_nat.simps)
    have c: "\<not> (page ?x1 = [] \<or> int (length (page ?x1)) < req_limit (fst ?x1)
            \<or> (case Unbounded of
                  Bounded n \<Rightarrow> n \<le> int (length (concat (map page ([?x0] @ [?x1]))))
                | Unbounded \<Rightarrow> False))"
      by (simp add: page_def numbered_page_length numbered_page_Nil)
    from fetch_messages_stops [THEN conjunct1, THEN mp, OF h] c
    obtain y where
      "sent (fetch_rounds counting_lib ''c'' ''t'' Unbounded counting_world (Suc (Suc (Suc 0))))
         = log counting_world @ [?x0] @ [?x1, y]"
      by (simp only: if_False) (elim exE)
    then show ?thesis by (simp add: counting_world_def)
  qed
  have e: "\<exists>x. sent (fetch_rounds counting_lib ''c'' ''t'' (Bounded 3) counting_world (Suc 0)) = [x]"
    using fetch_messages_stops [THEN conjunct2, THEN conjunct1, THEN mp,
        of 3 counting_lib "''c''" "''t''" counting_world]
    by (simp add: counting_world_def)
  have f: "\<exists>x. sent (fetch_rounds (demo_lib (pages_of 2)) ''c'' ''t'' Unbounded demo_world (Suc 0))
            = [x]"
    using fetch_messages_stops [THEN conjunct2, THEN conjunct2, THEN conjunct1,
        of "demo_lib (pages_of 2)" "''c''" "''t''" demo_world]
    by (simp add: demo_world_def)
  show ?thesis
    by (intro conjI)
      (rule a [THEN conjunct1], rule a [THEN conjunct2], rule b [THEN conjunct1],
       rule b [THEN conjunct2], rule c [THEN conjunct1], rule c [THEN conjunct2],
       rule d [THEN conjunct1], rule d [THEN conjunct2], rule e, rule f)
qed

subsection \<open>Formatting and saving\<close>

lemma attachment_lines_eq:
  "attachment_lines atts f =
     f @ concat (map (\<lambda>a. ''\<newline>    - '' @ get_default (att_filename a) ''file'' @ '': ''
                          @ get_default (att_url a) '''') atts)"
  by (induction atts arbitrary: f) simp_all

lemma format_message_shape:
  "\<exists>rest. format_message lib m =
       ''['' @ format_time lib (get_default (timestamp m) '''') @ ''] ''
         @ get_default (username (get_default (author m) \<lparr>username = None\<rparr>)) ''Unknown''
         @ '': '' @ get_default (content m) '''' @ rest
     \<and> (rest = [] \<or> hd rest = CHR 0x0A)"
proof -
  let ?atts = "get_default (attachments m) []"
  let ?embs = "get_default (embeds m) []"
  let ?a = "if ?atts \<noteq> [] then ''\<newline>  Attachments:'' @ concat (map (\<lambda>a. ''\<newline>    - ''
      @ get_default (att_filename a) ''file'' @ '': '' @ get_default (att_url a) '''') ?atts) else []"
  let ?e = "if ?embs \<noteq> [] then ''\<newline>  Embeds: '' @ str_nat (length ?embs) @ '' embed(s)'' else []"
  have "format_message lib m =
       ''['' @ format_time lib (get_default (timestamp m) '''') @ ''] ''
         @ get_default (username (get_default (author m) \<lparr>username = None\<rparr>)) ''Unknown''
         @ '': '' @ get_default (content m) '''' @ (?a @ ?e)"
    by (simp add: format_message_def Let_def attachment_lines_eq)
  moreover have "?a @ ?e = [] \<or> hd (?a @ ?e) = CHR 0x0A" by simp
  ultimately show ?thesis by blast
qed

lemma replace_Z_append: "replace_Z (a @ b) = replace_Z a @ replace_Z b"
  by (induction a) simp_all

text \<open>
  Claim C6.  For every message and whatever the library does, \<open>format_message\<close> returns
  a text, so no timestamp makes it raise.  The text starts with \<^verbatim>\<open>[\<close>, the formatted
  time, \<^verbatim>\<open>] \<close>, the author's name (\<^verbatim>\<open>Unknown\<close> when it is absent), \<^verbatim>\<open>: \<close> and the
  content, and what follows, if anything, starts on a new line.  The formatted time is
  what \<^verbatim>\<open>strftime\<close> gives for the pattern \<^verbatim>\<open>%Y-%m-%d %H:%M:%S UTC\<close> on the time that
  \<^verbatim>\<open>fromisoformat\<close> reads from the timestamp with each \<^verbatim>\<open>Z\<close>, so also one at its end,
  replaced by \<^verbatim>\<open>+00:00\<close>; when either call raises it is the timestamp as it came.
\<close>

theorem format_message_first_line:
  "(\<exists>rest.
      format_message lib m =
        ''[''
        @ (case fromisoformat lib
                  (replace_Z (case timestamp m of None \<Rightarrow> '''' | Some stamp \<Rightarrow> stamp)) of
             None \<Rightarrow> (case timestamp m of None \<Rightarrow> '''' | Some stamp \<Rightarrow> stamp)
           | Some dt \<Rightarrow>
               (case strftime lib dt ''%Y-%m-%d %H:%M:%S UTC'' of
                  None \<Rightarrow> (case timestamp m of None \<Rightarrow> '''' | Some stamp \<Rightarrow> stamp)
                | Some formatted_time \<Rightarrow> formatted_time))
        @ ''] ''
        @ (case author m of
             None \<Rightarrow> ''Unknown''
           | Some a \<Rightarrow> (case username a of None \<Rightarrow> ''Unknown'' | Some name \<Rightarrow> name))
        @ '': ''
        @ (case content m of None \<Rightarrow> '''' | Some body \<Rightarrow> body)
        @ rest
      \<and> (rest = [] \<or> hd rest = CHR 0x0A))
   \<and> replace_Z (stamp @ ''Z'') = replace_Z stamp @ ''+00:00''
   \<and> (CHR ''Z'' \<notin> set stamp \<longrightarrow> replace_Z stamp = stamp)"
proof (intro conjI)
  from format_message_shape [of lib m] obtain rest where
    r: "format_message lib m =
       ''['' @ format_time lib (get_default (timestamp m) '''') @ ''] ''
         @ get_default (username (get_default (author m) \<lparr>username = None\<rparr>)) ''Unknown''
         @ '': '' @ get_default (content m) '''' @ rest"
    and n: "rest = [] \<or> hd rest = CHR 0x0A"
    by blast
  have t: "get_default (timestamp m) '''' = (case timestamp m of None \<Rightarrow> '''' | Some stamp \<Rightarrow> stamp)"
    by (simp add: get_default_def)
  have a: "get_default (username (get_default (author m) \<lparr>username = None\<rparr>)) ''Unknown''
      = (case author m of
             None \<Rightarrow> ''Unknown''
           | Some a \<Rightarrow> (case username a of None \<Rightarrow> ''Unknown'' | Some name \<Rightarrow> name))"
    by (simp add: get_default_def split: option.splits)
  have c: "get_default (content m) '''' = (case content m of None \<Rightarrow> '''' | Some body \<Rightarrow> body)"
    by (simp add: get_default_def)
  have "format_message lib m =
        ''[''
        @ (case fromisoformat lib
                  (replace_Z (case timestamp m of None \<Rightarrow> '''' | Some stamp \<Rightarrow> stamp)) of
             None \<Rightarrow> (case timestamp m of None \<Rightarrow> '''' | Some stamp \<Rightarrow> stamp)
           | Some dt \<Rightarrow>
               (case strftime lib dt ''%Y-%m-%d %H:%M:%S UTC'' of
                  None \<Rightarrow> (case timestamp m of None \<Rightarrow> '''' | Some stamp \<Rightarrow> stamp)
                | Some formatted_time \<Rightarrow> formatted_time))
        @ ''] ''
        @ (case author m of
             None \<Rightarrow> ''Unknown''
           | Some a \<Rightarrow> (case username a of None \<Rightarrow> ''Unknown'' | Some name \<Rightarrow> name))
        @ '': ''
        @ (case content m of None \<Rightarrow> '''' | Some body \<Rightarrow> body)
        @ rest"
    unfolding r t a c by (simp add: format_time_def)
  with n show "\<exists>rest.
      format_message lib m =
        ''[''
        @ (case fromisoformat lib
                  (replace_Z (case timestamp m of None \<Rightarrow> '''' | Some stamp \<Rightarrow> stamp)) of
             None \<Rightarrow> (case timestamp m of None \<Rightarrow> '''' | Some stamp \<Rightarrow> stamp)
           | Some dt \<Rightarrow>
               (case strftime lib dt ''%Y-%m-%d %H:%M:%S UTC'' of
                  None \<Rightarrow> (case timestamp m of None \<Rightarrow> '''' | Some stamp \<Rightarrow> stamp)
                | Some formatted_time \<Rightarrow> formatted_time))
        @ ''] ''
        @ (case author m of
             None \<Rightarrow> ''Unknown''
           | Some a \<Rightarrow> (case username a of None \<Rightarrow> ''Unknown'' | Some name \<Rightarrow> name))
        @ '': ''
        @ (case content m of None \<Rightarrow> '''' | Some body \<Rightarrow> body)
        @ rest
      \<and> (rest = [] \<or> hd rest = CHR 0x0A)"
    by blast
  show "replace_Z (stamp @ ''Z'') = replace_Z stamp @ ''+00:00''"
    by (simp add: replace_Z_append)
  show "CHR ''Z'' \<notin> set stamp \<longrightarrow> replace_Z stamp = stamp"
    by (induction stamp) auto
qed

theorem format_message_first_line_witness:
  "(\<exists>rest. format_message iso_lib (demo_message ''1'')
             = ''[2024-05-01 10:00:00 UTC] ann: hi'' @ rest
           \<and> (rest = [] \<or> hd rest = CHR 0x0A))
   \<and> (\<exists>rest. format_message iso_lib ((demo_message ''1'')\<lparr>timestamp := Some ''yesterday''\<rparr>)
             = ''[yesterday] ann: hi'' @ rest
           \<and> (rest = [] \<or> hd rest = CHR 0x0A))
   \<and> (\<exists>rest. format_message iso_lib
               ((demo_message ''1'')\<lparr>timestamp := Some ''2024-13-01T10:00:00Z'', author := None\<rparr>)
             = ''[2024-13-01T10:00:00Z] Unknown: hi'' @ rest
           \<and> (rest = [] \<or> hd rest = CHR 0x0A))
   \<and> format_message iso_lib (demo_message ''1'') = ''[2024-05-01 10:00:00 UTC] ann: hi''
   \<and> format_message iso_lib ((demo_message ''1'')\<lparr>timestamp := Some ''yesterday''\<rparr>)
       = ''[yesterday] ann: hi''"
proof (intro conjI)
  show "\<exists>rest. format_message iso_lib (demo_message ''1'')
             = ''[2024-05-01 10:00:00 UTC] ann: hi'' @ rest
           \<and> (rest = [] \<or> hd rest = CHR 0x0A)"
    using format_message_first_line [of iso_lib "demo_message ''1''" "''''", THEN conjunct1]
    by (simp add: iso_lib_def demo_message_def parse_iso_def fraction_ok_def offset_ok_def
        render_utc_def pad_def str_nat.simps digit_def)
  show "\<exists>rest. format_message iso_lib ((demo_message ''1'')\<lparr>timestamp := Some ''yesterday''\<rparr>)
             = ''[yesterday] ann: hi'' @ rest
           \<and> (rest = [] \<or> hd rest = CHR 0x0A)"
    using format_message_first_line [of iso_lib
        "(demo_message ''1'')\<lparr>timestamp := Some ''yesterday''\<rparr>" "''''", THEN conjunct1]
    by (simp add: iso_lib_def demo_message_def parse_iso_def fraction_ok_def offset_ok_def
        render_utc_def pad_def str_nat.simps digit_def)
  show "\<exists>rest. format_message iso_lib
               ((demo_message ''1'')\<lparr>timestamp := Some ''2024-13-01T10:00:00Z'', author := None\<rparr>)
             = ''[2024-13-01T10:00:00Z] Unknown: hi'' @ rest
           \<and> (rest = [] \<or> hd rest = CHR 0x0A)"
    using format_message_first_line [of iso_lib
        "(demo_message ''1'')\<lparr>timestamp := Some ''2024-13-01T10:00:00Z'', author := None\<rparr>" "''''",
        THEN conjunct1]
    by (simp add: iso_lib_def demo_message_def parse_iso_def fraction_ok_def offset_ok_def
        render_utc_def pad_def str_nat.simps digit_def)
  show "format_message iso_lib (demo_message ''1'') = ''[2024-05-01 10:00:00 UTC] ann: hi''"
    by (simp add: format_message_def format_time_def iso_lib_def demo_message_def get_default_def
      parse_iso_def fraction_ok_def offset_ok_def render_utc_def pad_def str_nat.simps digit_def
      Let_def)
  show "format_message iso_lib ((demo_message ''1'')\<lparr>timestamp := Some ''yesterday''\<rparr>)
       = ''[yesterday] ann: hi''"
    by (simp add: format_message_def format_time_def iso_lib_def demo_message_def get_default_def
      parse_iso_def fraction_ok_def offset_ok_def render_utc_def pad_def str_nat.simps digit_def
      Let_def)
qed

lemma write_messages_eq:
  "write_messages lib ms f = f @ concat (map (\<lambda>m. format_message lib m @ ''\<newline>\<newline>'') ms)"
  by (induction ms arbitrary: f) simp_all

lemma rev_by_index: "rev ms = map (\<lambda>i. ms ! (length ms - 1 - i)) [0..<length ms]"
  by (rule nth_equalityI) (simp_all add: rev_nth)

text \<open>
  Claim C8.  When the file opens, \<open>save_messages\<close> ends normally and the file holds the
  header followed by one block for each of the \<open>N\<close> messages: block \<open>i\<close> is
  \<open>format_message\<close> of message \<open>N - 1 - i\<close> of the batch, so the blocks stand in the
  reverse of the fetch order, and each block ends in an empty line.
\<close>

theorem save_messages_blocks:
  "open_w lib output_file = None \<longrightarrow>
     fst (save_messages lib now messages output_file w) = Inr ()
     \<and> files (snd (save_messages lib now messages output_file w)) =
         (files w)(output_file \<mapsto>
            ''Discord Messages Export\<newline>''
            @ ''Total messages: '' @ str_nat (length messages) @ ''\<newline>''
            @ ''Exported on: '' @ now @ ''\<newline>''
            @ replicate 80 (CHR ''='') @ ''\<newline>\<newline>''
            @ concat (map (\<lambda>i. format_message lib (messages ! (length messages - 1 - i))
                                 @ ''\<newline>\<newline>'')
                        [0..<length messages]))"
proof
  assume o: "open_w lib output_file = None"
  have "concat (map (\<lambda>m. format_message lib m @ ''\<newline>\<newline>'') (rev messages))
      = concat (map (\<lambda>i. format_message lib (messages ! (length messages - 1 - i))
                                 @ ''\<newline>\<newline>'') [0..<length messages])"
    by (subst rev_by_index) (simp add: comp_def)
  then show "fst (save_messages lib now messages output_file w) = Inr ()
     \<and> files (snd (save_messages lib now messages output_file w)) =
         (files w)(output_file \<mapsto>
            ''Discord Messages Export\<newline>''
            @ ''Total messages: '' @ str_nat (length messages) @ ''\<newline>''
            @ ''Exported on: '' @ now @ ''\<newline>''
            @ replicate 80 (CHR ''='') @ ''\<newline>\<newline>''
            @ concat (map (\<lambda>i. format_message lib (messages ! (length messages - 1 - i))
                                 @ ''\<newline>\<newline>'')
                        [0..<length messages]))"
    using o by (simp add: save_messages_def Let_def write_messages_eq print_def)
qed

theorem save_messages_blocks_witness:
  "files (snd (save_messages (demo_lib (pages_of 0)) ''2024-05-02 08:00:00''
       [(demo_message ''2'')\<lparr>content := Some ''new''\<rparr>, (demo_message ''1'')\<lparr>content := Some ''old''\<rparr>]
       ''m.txt'' demo_world)) ''m.txt''
   = Some (''Discord Messages Export\<newline>''
           @ ''Total messages: 2\<newline>''
           @ ''Exported on: 2024-05-02 08:00:00\<newline>''
           @ replicate 80 (CHR ''='') @ ''\<newline>\<newline>''
           @ ''[2024-05-01T10:00:00Z] ann: old\<newline>\<newline>''
           @ ''[2024-05-01T10:00:00Z] ann: new\<newline>\<newline>'')"
proof -
  have o: "open_w (demo_lib (pages_of 0)) ''m.txt'' = None" by (simp add: demo_lib_def)
  have u: "[0..<2] = [0, Suc 0]" by (simp add: upt_rec)
  from save_messages_blocks [of "demo_lib (pages_of 0)" "''m.txt''" "''2024-05-02 08:00:00''"
      "[(demo_message ''2'')\<lparr>content := Some ''new''\<rparr>, (demo_message ''1'')\<lparr>content := Some ''old''\<rparr>]"
      demo_world] o
  show ?thesis
    by (simp add: u str_nat.simps format_message_def format_time_def demo_lib_def
        demo_message_def get_default_def Let_def)
qed

subsection \<open>Failing requests and the run of \<^verbatim>\<open>main\<close>\<close>

lemma save_messages_log: "log (snd (save_messages lib now ms path w)) = log w"
  by (simp add: save_messages_def Let_def print_def split: option.splits)

lemma save_links_log: "log (snd (save_links lib now ls path w)) = log w"
  by (simp add: save_links_def Let_def print_def split: option.splits)

lemma export_log: "log (snd (export lib now1 now2 a path ms w)) = log w"
proof -
  have s: "\<And>r w1. save_messages lib now1 ms path w = (r, w1) \<Longrightarrow> log w1 = log w"
    using save_messages_log [of lib now1 ms path w] by simp
  have l: "\<And>r w1 w2 ls. save_links lib now2 ls ''links.txt'' w1 = (r, w2) \<Longrightarrow> log w2 = log w1"
    subgoal for r w1 w2 ls using save_links_log [of lib now2 ls "''links.txt''" w1] by simp
    done
  show ?thesis
    by (auto simp: export_def Let_def print_def split: prod.splits sum.splits dest!: s l)
qed


lemma main_cases:
  assumes "main lib env a now1 now2 w = Some (mres, mw)"
  shows "(log mw = log w \<and> files mw = files w)
       \<or> (\<exists>channel token lim w3 e. log w3 = log w \<and> files w3 = files w
             \<and> fetch_messages lib channel token lim w3 = Some (Inl e, mw) \<and> mres = Inl e)
       \<or> (\<exists>channel token lim w3 w4 msgs path. log w3 = log w \<and> files w3 = files w
             \<and> fetch_messages lib channel token lim w3 = Some (Inr msgs, w4)
             \<and> (mres, mw) = export lib now1 now2 a path msgs w4)"
proof -
  let ?w1 = "print (replicate 80 (CHR ''=''))
                 (print ''Discord Message Fetcher'' (print (replicate 80 (CHR ''='')) w))"
  obtain r1 w2 where le: "load_environment env ?w1 = (r1, w2)" by (cases "load_environment env ?w1")
  have w2: "log w2 = log w \<and> files w2 = files w"
    using le by (auto simp: load_environment_def Let_def print_def split: if_splits)
  show ?thesis
  proof (cases r1)
    case (Inl e)
    with assms le w2 show ?thesis by (simp add: main_def Let_def)
  next
    case (Inr tc)
    obtain token channel where tc: "tc = (token, channel)" by (cases tc)
    let ?lim = "if lower (arg_limit a) = ''all''
                    then Inr (Unbounded, ''All available messages'')
                    else (case py_int lib (arg_limit a) of
                            None \<Rightarrow>
                              Inl (''Error: Invalid limit value '' @ [CHR 0x27] @ arg_limit a
                                     @ [CHR 0x27] @ ''. Use a number or '' @ [CHR 0x27] @ ''all''
                                     @ [CHR 0x27])
                          | Some n \<Rightarrow>
                              if n \<le> 0
                              then Inl ''Error: Number of messages must be greater than 0''
                              else Inr (Bounded n, str_int n))"
    show ?thesis
    proof (cases ?lim)
      case (Inl msg)
      with assms le Inr tc have "mw = print msg w2"
        by (simp add: main_def Let_def)
      with w2 show ?thesis by (simp add: print_def)
    next
      case (Inr ld)
      obtain lim disp where ld: "ld = (lim, disp)" by (cases ld)
      let ?path = "if \<not> endswith (arg_output a) ''.txt'' then arg_output a @ ''.txt'' else arg_output a"
      let ?w3 = "print (''Output file: '' @ ?path @ ''\<newline>'')
                             (print (''Messages to fetch: '' @ disp)
                                (print (''\<newline>Channel ID: '' @ channel) w2))"
      have w3: "log ?w3 = log w \<and> files ?w3 = files w" using w2 by (simp add: print_def)
      have m: "main lib env a now1 now2 w =
          (case fetch_messages lib channel token lim ?w3 of
                        None \<Rightarrow> None
                      | Some (Inl e, w4) \<Rightarrow> Some (Inl e, w4)
                      | Some (Inr messages, w4) \<Rightarrow>
                          Some (export lib now1 now2 a ?path messages w4))"
        using le \<open>r1 = Inr tc\<close> tc Inr ld by (simp add: main_def Let_def)
      show ?thesis
      proof (cases "fetch_messages lib channel token lim ?w3")
        case None
        with m assms show ?thesis by simp
      next
        case (Some out)
        obtain res w4 where out: "out = (res, w4)" by (cases out)
        show ?thesis
        proof (cases res)
          case (Inl e)
          with m assms Some out have "mres = Inl e \<and> mw = w4" by simp
          with Some out Inl w3 show ?thesis by blast
        next
          case (Inr msgs)
          with m assms Some out have "(mres, mw) = export lib now1 now2 a ?path msgs w4" by simp
          with Some out Inr w3 show ?thesis by blast
        qed
      qed
    qed
  qed
qed

lemma error_lines_distinct:
  "status_code r = c \<Longrightarrow> c \<in> {401, 403, 404} \<Longrightarrow> status_code r' \<noteq> c \<Longrightarrow>
     error_lines (Inr r) \<noteq> error_lines (Inr r')"
  by (auto simp: error_lines_def)

lemma fetch_messages_failed:
  assumes "fetch_messages lib channel_id token lim w = Some (res, w')"
    and "log w' = log w @ xs" and "x \<in> set xs" and "failed (snd x)"
  shows "x = last xs \<and> res = Inl (SystemExit 1) \<and> files w' = files w
           \<and> (\<exists>pre. stdout w' = pre @ error_lines (snd x))"
proof -
  from fetch_messages_run [OF assms(1)] assms(2) have
    r: "run (''https://discord.com/api/v10/channels/'' @ channel_id @ ''/messages'') token
               \<lparr>all_messages = [], remaining = lim, last_message_id = None\<rparr> xs res"
    and f: "files w' = files w"
    and e: "\<forall>e. res = Inl e \<longrightarrow> xs \<noteq> [] \<and> (\<exists>pre. stdout w' = pre @ error_lines (snd (last xs)))"
    by auto
  from run_failed [OF r assms(3,4)] have l: "x = last xs" "res = Inl (SystemExit 1)" by simp_all
  with e f show ?thesis by auto
qed

lemma main_failed:
  assumes "main lib env a now1 now2 w = Some (mres, mw)"
    and "log mw = log w @ ys" and "y \<in> set ys" and "failed (snd y)"
  shows "y = last ys \<and> mres = Inl (SystemExit 1) \<and> files mw = files w
           \<and> (\<exists>pre. stdout mw = pre @ error_lines (snd y))"
proof -
  from main_cases [OF assms(1)] consider
    (early) "log mw = log w"
    | (err) channel token lim w3 e where "log w3 = log w" "files w3 = files w"
        "fetch_messages lib channel token lim w3 = Some (Inl e, mw)" "mres = Inl e"
    | (ok) channel token lim w3 w4 msgs path where "log w3 = log w" "files w3 = files w"
        "fetch_messages lib channel token lim w3 = Some (Inr msgs, w4)"
        "(mres, mw) = export lib now1 now2 a path msgs w4"
    by blast
  then show ?thesis
  proof cases
    case early
    with assms(2,3) show ?thesis by simp
  next
    case err
    from assms(2) err(1) have "log mw = log w3 @ ys" by simp
    from fetch_messages_failed [OF err(3) this assms(3,4)] err(2,4)
    show ?thesis by auto
  next
    case ok
    from ok(4) have "log mw = log w4" using export_log [of lib now1 now2 a path msgs w4]
      by (metis snd_conv)
    with assms(2) ok(1) have l: "log w4 = log w3 @ ys" by simp
    from fetch_messages_run [OF ok(3)] l obtain
      r: "run (''https://discord.com/api/v10/channels/'' @ channel @ ''/messages'') token
               \<lparr>all_messages = [], remaining = lim, last_message_id = None\<rparr> ys (Inr msgs)"
      by auto
    from run_result [OF r refl] assms(3,4) show ?thesis by blast
  qed
qed


lemma main_prologue:
  "main lib env a now1 now2 w =
     (case prologue lib env a w of
        Inl (e, w2) \<Rightarrow> Some (Inl e, w2)
      | Inr (channel_id, token, lim, output_file, w3) \<Rightarrow>
          (case fetch_messages lib channel_id token lim w3 of
             None \<Rightarrow> None
           | Some (Inl e, w4) \<Rightarrow> Some (Inl e, w4)
           | Some (Inr messages, w4) \<Rightarrow> Some (export lib now1 now2 a output_file messages w4)))"
  by (simp add: main_def prologue_def Let_def split: prod.splits sum.splits option.splits)

lemma prologue_world:
  assumes "prologue lib env a w = Inr (channel_id, token, lim, output_file, w3)"
  shows "log w3 = log w \<and> files w3 = files w \<and> server w3 = server w"
  using assms
  by (auto simp: prologue_def load_environment_def Let_def print_def
      split: prod.splits sum.splits option.splits if_splits)

lemma fetch_rounds_failed:
  assumes "sent (fetch_rounds lib channel_id token lim w (Suc k))
             = sent (fetch_rounds lib channel_id token lim w k) @ [x]"
    and "failed (snd x)"
  shows "\<exists>w'. fetch_messages lib channel_id token lim w = Some (Inl (SystemExit 1), w')
           \<and> log w' = sent (fetch_rounds lib channel_id token lim w k) @ [x]
           \<and> files w' = files w \<and> (\<exists>pre. stdout w' = pre @ error_lines (snd x))"
  using rounds_failed [OF assms(1) [unfolded fetch_rounds_def] assms(2)] assms(1)
  by (simp add: fetch_messages_def fetch_rounds_def print_def)

lemma main_rounds_failed:
  assumes p: "prologue lib env a w = Inr (channel, tok, lm, path, w3)"
    and g: "sent (fetch_rounds lib channel tok lm w3 (Suc k))
             = sent (fetch_rounds lib channel tok lm w3 k) @ [y]"
    and f: "failed (snd y)"
  shows "\<exists>mw. main lib env a now1 now2 w = Some (Inl (SystemExit 1), mw)
           \<and> log mw = sent (fetch_rounds lib channel tok lm w3 k) @ [y]
           \<and> files mw = files w \<and> (\<exists>pre. stdout mw = pre @ error_lines (snd y))"
proof -
  from fetch_rounds_failed [OF g f] obtain w' where
    w': "fetch_messages lib channel tok lm w3 = Some (Inl (SystemExit 1), w')"
        "log w' = sent (fetch_rounds lib channel tok lm w3 k) @ [y]"
        "files w' = files w3" "\<exists>pre. stdout w' = pre @ error_lines (snd y)"
    by blast
  from prologue_world [OF p] have "files w3 = files w" by simp
  moreover have "main lib env a now1 now2 w = Some (Inl (SystemExit 1), w')"
    by (simp add: main_prologue p w'(1))
  ultimately have "main lib env a now1 now2 w = Some (Inl (SystemExit 1), w')
           \<and> log w' = sent (fetch_rounds lib channel tok lm w3 k) @ [y]
           \<and> files w' = files w \<and> (\<exists>pre. stdout w' = pre @ error_lines (snd y))"
    using w'(2,3,4) by simp
  then show ?thesis by (rule exI [of _ w'])
qed

lemma fetch_rounds_Unbounded:
  assumes "fetch_rounds lib channel_id token Unbounded w k = Inr (v, wk)"
  shows "remaining v = Unbounded \<and> files wk = files w"
proof -
  from rounds_Inr [OF assms [unfolded fetch_rounds_def]] obtain xs where
    "v = foldl advance \<lparr>all_messages = [], remaining = Unbounded, last_message_id = None\<rparr> xs"
    "files wk = files (print (''Fetching messages from channel '' @ channel_id @ ''...'') w)"
    by blast
  then show ?thesis by (simp add: foldl_advance(1) print_def)
qed

lemma fetch_unbounded_failed:
  assumes r: "fetch_rounds lib channel_id token Unbounded w k = Inr (v, wk)"
    and a: "api lib (server wk)
              (request_of (''https://discord.com/api/v10/channels/'' @ channel_id @ ''/messages'')
                 token v) = (reply, s)"
    and f: "failed reply"
  shows "\<exists>w'. fetch_messages lib channel_id token Unbounded w = Some (Inl (SystemExit 1), w')
           \<and> log w' = log wk
                @ [(request_of (''https://discord.com/api/v10/channels/'' @ channel_id @ ''/messages'')
                      token v, reply)]
           \<and> files w' = files w \<and> stdout w' = stdout wk @ error_lines reply"
proof -
  let ?U = "''https://discord.com/api/v10/channels/'' @ channel_id @ ''/messages''"
  let ?st = "(\<lparr>all_messages = [], remaining = Unbounded, last_message_id = None\<rparr>,
              print (''Fetching messages from channel '' @ channel_id @ ''...'') w)"
  from fetch_rounds_Unbounded [OF r] have u: "remaining v = Unbounded" "files wk = files w"
    by simp_all
  then have "positive (remaining v)" by simp
  from step_failed [OF this a f] obtain w1 where
    w1: "fetch_step lib ?U token (v, wk) = Inl (Inl (SystemExit 1), w1)"
        "log w1 = log wk @ [(request_of ?U token v, reply)]" "files w1 = files wk"
        "stdout w1 = stdout wk @ error_lines reply"
    by blast
  from r have "rounds lib ?U token k ?st = Inr (v, wk)" by (simp add: fetch_rounds_def)
  then have "rounds lib ?U token (Suc k) ?st = Inl (Inl (SystemExit 1), w1)"
    using w1(1) by (simp add: rounds_Suc_end)
  from rounds_Inl [OF this]
  have "fetch_messages lib channel_id token Unbounded w = Some (Inl (SystemExit 1), w1)"
    by (simp add: fetch_messages_def)
  with w1(2,3,4) u(2) have "fetch_messages lib channel_id token Unbounded w = Some (Inl (SystemExit 1), w1)
           \<and> log w1 = log wk @ [(request_of ?U token v, reply)]
           \<and> files w1 = files w \<and> stdout w1 = stdout wk @ error_lines reply"
    by simp
  then show ?thesis by (rule exI [of _ w1])
qed

text \<open>
  Claim C7.  When the reply to a page request is a network failure or has a status other
  than 200, the run aborts at once, whatever the limit and however many pages had
  arrived before: if round \<open>k + 1\<close> of the loop makes the exchange \<open>x\<close> and the reply of
  \<open>x\<close> is a failure, then \<open>fetch_messages\<close> ends, it ends in \<^verbatim>\<open>sys.exit(1)\<close> and so returns
  no messages, \<open>x\<close> is the last request it has sent, no file is touched, and the last lines
  printed are those of \<open>error_lines\<close> for the reply.  The same holds for the run of
  \<^verbatim>\<open>main\<close> around it: it ends with the same exit and has written no file.  With the
  limit \<^verbatim>\<open>all\<close> every round reached sends its request, and a failure of that request
  aborts in this way.  In a run that has ended, a failed exchange can only be the last
  one.  A reply fails exactly when its status is not 200.  The lines printed for 401, for
  403 and for 404 differ from each other and from the lines for every other status; the
  exit code is 1 in each case, so the printed lines are what tells the errors apart.
\<close>

theorem fetch_errors_abort:
  "(sent (fetch_rounds lib channel_id token lim w (Suc k))
        = sent (fetch_rounds lib channel_id token lim w k) @ [x] \<and> failed (snd x)
    \<longrightarrow> (\<exists>w'. fetch_messages lib channel_id token lim w = Some (Inl (SystemExit 1), w')
           \<and> log w' = sent (fetch_rounds lib channel_id token lim w k) @ [x]
           \<and> files w' = files w \<and> (\<exists>pre. stdout w' = pre @ error_lines (snd x))))
   \<and> (prologue lib env a w = Inr (channel, tok, lm, path, w3)
      \<and> sent (fetch_rounds lib channel tok lm w3 (Suc k))
          = sent (fetch_rounds lib channel tok lm w3 k) @ [y] \<and> failed (snd y)
    \<longrightarrow> (\<exists>mw. main lib env a now1 now2 w = Some (Inl (SystemExit 1), mw)
           \<and> log mw = sent (fetch_rounds lib channel tok lm w3 k) @ [y]
           \<and> files mw = files w \<and> (\<exists>pre. stdout mw = pre @ error_lines (snd y))))
   \<and> (fetch_rounds lib channel_id token Unbounded w k = Inr (v, wk)
      \<and> api lib (server wk)
          (request_of (''https://discord.com/api/v10/channels/'' @ channel_id @ ''/messages'')
             token v) = (reply, s)
      \<and> failed reply
    \<longrightarrow> (\<exists>w'. fetch_messages lib channel_id token Unbounded w = Some (Inl (SystemExit 1), w')
           \<and> log w' = log wk
                @ [(request_of (''https://discord.com/api/v10/channels/'' @ channel_id @ ''/messages'')
                      token v, reply)]
           \<and> files w' = files w \<and> stdout w' = stdout wk @ error_lines reply))
   \<and> (fetch_messages lib channel_id token lim w = Some (res, w') \<and> log w' = log w @ xs
      \<and> z \<in> set xs \<and> failed (snd z)
    \<longrightarrow> z = last xs \<and> res = Inl (SystemExit 1) \<and> files w' = files w
        \<and> (\<exists>pre. stdout w' = pre @ error_lines (snd z)))
   \<and> (main lib env a now1 now2 w = Some (mres, mw) \<and> log mw = log w @ ys
      \<and> z \<in> set ys \<and> failed (snd z)
    \<longrightarrow> z = last ys \<and> mres = Inl (SystemExit 1) \<and> files mw = files w
        \<and> (\<exists>pre. stdout mw = pre @ error_lines (snd z)))
   \<and> (failed (Inr r) \<longleftrightarrow> status_code r \<noteq> 200)
   \<and> (status_code r = 401 \<longrightarrow>
        error_lines (Inr r) = [''Error: Invalid Discord token'',
                               ''Please check your DISCORD_TOKEN in the .env file''])
   \<and> (status_code r = 403 \<longrightarrow>
        error_lines (Inr r) =
          [''Error: Access forbidden - you don't have permission to access this channel''])
   \<and> (status_code r = 404 \<longrightarrow>
        error_lines (Inr r) = [''Error: Channel not found - please check the channel ID''])
   \<and> (status_code r \<notin> {401, 403, 404} \<longrightarrow>
        error_lines (Inr r) = [''Error: HTTP '' @ str_int (status_code r), resp_text r])
   \<and> (status_code r \<in> {401, 403, 404} \<and> status_code r' \<noteq> status_code r \<longrightarrow>
        error_lines (Inr r) \<noteq> error_lines (Inr r'))"
proof (intro conjI impI)
  assume "sent (fetch_rounds lib channel_id token lim w (Suc k))
        = sent (fetch_rounds lib channel_id token lim w k) @ [x] \<and> failed (snd x)"
  then show "\<exists>w'. fetch_messages lib channel_id token lim w = Some (Inl (SystemExit 1), w')
           \<and> log w' = sent (fetch_rounds lib channel_id token lim w k) @ [x]
           \<and> files w' = files w \<and> (\<exists>pre. stdout w' = pre @ error_lines (snd x))"
    using fetch_rounds_failed by blast
next
  assume "prologue lib env a w = Inr (channel, tok, lm, path, w3)
      \<and> sent (fetch_rounds lib channel tok lm w3 (Suc k))
          = sent (fetch_rounds lib channel tok lm w3 k) @ [y] \<and> failed (snd y)"
  then show "\<exists>mw. main lib env a now1 now2 w = Some (Inl (SystemExit 1), mw)
           \<and> log mw = sent (fetch_rounds lib channel tok lm w3 k) @ [y]
           \<and> files mw = files w \<and> (\<exists>pre. stdout mw = pre @ error_lines (snd y))"
    using main_rounds_failed by blast
next
  assume "fetch_rounds lib channel_id token Unbounded w k = Inr (v, wk)
      \<and> api lib (server wk)
          (request_of (''https://discord.com/api/v10/channels/'' @ channel_id @ ''/messages'')
             token v) = (reply, s)
      \<and> failed reply"
  then have h: "fetch_rounds lib channel_id token Unbounded w k = Inr (v, wk)"
      "api lib (server wk)
          (request_of (''https://discord.com/api/v10/channels/'' @ channel_id @ ''/messages'')
             token v) = (reply, s)"
      "failed reply"
    by simp_all
  show "\<exists>w'. fetch_messages lib channel_id token Unbounded w = Some (Inl (SystemExit 1), w')
           \<and> log w' = log wk
                @ [(request_of (''https://discord.com/api/v10/channels/'' @ channel_id @ ''/messages'')
                      token v, reply)]
           \<and> files w' = files w \<and> stdout w' = stdout wk @ error_lines reply"
    by (rule fetch_unbounded_failed [OF h])
next
  assume "fetch_messages lib channel_id token lim w = Some (res, w') \<and> log w' = log w @ xs
      \<and> z \<in> set xs \<and> failed (snd z)"
  then have "z = last xs \<and> res = Inl (SystemExit 1) \<and> files w' = files w
        \<and> (\<exists>pre. stdout w' = pre @ error_lines (snd z))"
    using fetch_messages_failed by blast
  then show "z = last xs" "res = Inl (SystemExit 1)" "files w' = files w"
    "\<exists>pre. stdout w' = pre @ error_lines (snd z)" by blast+
next
  assume "main lib env a now1 now2 w = Some (mres, mw) \<and> log mw = log w @ ys
      \<and> z \<in> set ys \<and> failed (snd z)"
  then have "z = last ys \<and> mres = Inl (SystemExit 1) \<and> files mw = files w
        \<and> (\<exists>pre. stdout mw = pre @ error_lines (snd z))"
    using main_failed by blast
  then show "z = last ys" "mres = Inl (SystemExit 1)" "files mw = files w"
    "\<exists>pre. stdout mw = pre @ error_lines (snd z)" by blast+
next
  show "failed (Inr r) \<longleftrightarrow> status_code r \<noteq> 200" by (simp add: failed_def)
next
  assume "status_code r = 401"
  then show "error_lines (Inr r) = [''Error: Invalid Discord token'',
                               ''Please check your DISCORD_TOKEN in the .env file'']"
    by (simp add: error_lines_def)
next
  assume "status_code r = 403"
  then show "error_lines (Inr r) =
          [''Error: Access forbidden - you don't have permission to access this channel'']"
    by (simp add: error_lines_def)
next
  assume "status_code r = 404"
  then show "error_lines (Inr r) = [''Error: Channel not found - please check the channel ID'']"
    by (simp add: error_lines_def)
next
  assume "status_code r \<notin> {401, 403, 404}"
  then show "error_lines (Inr r) = [''Error: HTTP '' @ str_int (status_code r), resp_text r]"
    by (simp add: error_lines_def)
next
  assume "status_code r \<in> {401, 403, 404} \<and> status_code r' \<noteq> status_code r"
  then show "error_lines (Inr r) \<noteq> error_lines (Inr r')"
    using error_lines_distinct [of r "status_code r" r'] by blast
qed

theorem fetch_errors_abort_witness:
  "(\<exists>mw pre. main (demo_lib (status 401)) demo_env demo_args ''n1'' ''n2'' demo_world
                = Some (Inl (SystemExit 1), mw)
        \<and> files mw = Map.empty
        \<and> stdout mw = pre @ [''Error: Invalid Discord token'',
                             ''Please check your DISCORD_TOKEN in the .env file''])
   \<and> (\<exists>mw pre. main (demo_lib (status 500)) demo_env all_args ''n1'' ''n2'' demo_world
                = Some (Inl (SystemExit 1), mw)
        \<and> files mw = Map.empty
        \<and> stdout mw = pre @ [''Error: HTTP 500'', ''denied''])
   \<and> (\<exists>w'. fetch_messages (demo_lib (page_then 404)) ''c'' ''t'' Unbounded demo_world
                = Some (Inl (SystemExit 1), w')
        \<and> map (\<lambda>x. (req_limit (fst x), before (fst x))) (log w')
            = [(100, None), (100, Some ''99901'')]
        \<and> files w' = Map.empty
        \<and> stdout w' = [''Fetching messages from channel c...'', ''Fetched 100 messages so far...'',
                       ''Error: Channel not found - please check the channel ID''])
   \<and> (\<exists>w' pre. fetch_messages (demo_lib (status 403)) ''c'' ''t'' Unbounded demo_world
                = Some (Inl (SystemExit 1), w')
        \<and> length (log w') = 1 \<and> files w' = Map.empty
        \<and> stdout w' = pre
            @ [''Error: Access forbidden - you don't have permission to access this channel''])
   \<and> ended (main (demo_lib (status 401)) demo_env demo_args ''n1'' ''n2'' demo_world)
       = Some (Inl (SystemExit 1))
   \<and> file_after ''messages.txt''
       (main (demo_lib (status 401)) demo_env demo_args ''n1'' ''n2'' demo_world) = None
   \<and> error_lines (Inr \<lparr>status_code = 401, json = [], resp_text = ''denied''\<rparr>)
       \<noteq> error_lines (Inr \<lparr>status_code = 403, json = [], resp_text = ''denied''\<rparr>)
   \<and> error_lines (Inr \<lparr>status_code = 404, json = [], resp_text = ''denied''\<rparr>)
       \<noteq> error_lines (Inr \<lparr>status_code = 500, json = [], resp_text = ''denied''\<rparr>)"
proof -
  note lines_401 = fetch_errors_abort [THEN conjunct2, THEN conjunct2, THEN conjunct2,
      THEN conjunct2, THEN conjunct2, THEN conjunct2, THEN conjunct1, THEN mp]
  note lines_403 = fetch_errors_abort [THEN conjunct2, THEN conjunct2, THEN conjunct2,
      THEN conjunct2, THEN conjunct2, THEN conjunct2, THEN conjunct2, THEN conjunct1, THEN mp]
  note lines_404 = fetch_errors_abort [THEN conjunct2, THEN conjunct2, THEN conjunct2,
      THEN conjunct2, THEN conjunct2, THEN conjunct2, THEN conjunct2, THEN conjunct2,
      THEN conjunct1, THEN mp]
  note lines_other = fetch_errors_abort [THEN conjunct2, THEN conjunct2, THEN conjunct2,
      THEN conjunct2, THEN conjunct2, THEN conjunct2, THEN conjunct2, THEN conjunct2,
      THEN conjunct2, THEN conjunct1, THEN mp]
  note lines_differ = fetch_errors_abort [THEN conjunct2, THEN conjunct2, THEN conjunct2,
      THEN conjunct2, THEN conjunct2, THEN conjunct2, THEN conjunct2, THEN conjunct2,
      THEN conjunct2, THEN conjunct2, THEN mp]
  have e401: "error_lines (Inr \<lparr>status_code = 401, json = [], resp_text = ''denied''\<rparr>)
      = [''Error: Invalid Discord token'', ''Please check your DISCORD_TOKEN in the .env file'']"
    by (rule lines_401) simp
  have e403: "error_lines (Inr \<lparr>status_code = 403, json = [], resp_text = ''denied''\<rparr>)
      = [''Error: Access forbidden - you don't have permission to access this channel'']"
    by (rule lines_403) simp
  have e404: "error_lines (Inr \<lparr>status_code = 404, json = [], resp_text = ''denied''\<rparr>)
      = [''Error: Channel not found - please check the channel ID'']"
    by (rule lines_404) simp
  have e500: "error_lines (Inr \<lparr>status_code = 500, json = [], resp_text = ''denied''\<rparr>)
      = [''Error: HTTP 500'', ''denied'']"
    using lines_other [of "\<lparr>status_code = 500, json = [], resp_text = ''denied''\<rparr>"]
    by (simp add: str_int_def str_nat.simps)
  have d1: "error_lines (Inr \<lparr>status_code = 401, json = [], resp_text = ''denied''\<rparr>)
       \<noteq> error_lines (Inr \<lparr>status_code = 403, json = [], resp_text = ''denied''\<rparr>)"
    by (rule lines_differ) simp
  have d2: "error_lines (Inr \<lparr>status_code = 404, json = [], resp_text = ''denied''\<rparr>)
       \<noteq> error_lines (Inr \<lparr>status_code = 500, json = [], resp_text = ''denied''\<rparr>)"
    by (rule lines_differ) simp
  have p1: "\<exists>mw pre. main (demo_lib (status 401)) demo_env demo_args ''n1'' ''n2'' demo_world
                = Some (Inl (SystemExit 1), mw)
        \<and> files mw = Map.empty
        \<and> stdout mw = pre @ [''Error: Invalid Discord token'',
                             ''Please check your DISCORD_TOKEN in the .env file'']"
    and p5: "ended (main (demo_lib (status 401)) demo_env demo_args ''n1'' ''n2'' demo_world)
       = Some (Inl (SystemExit 1))
      \<and> file_after ''messages.txt''
       (main (demo_lib (status 401)) demo_env demo_args ''n1'' ''n2'' demo_world) = None"
  proof -
  let ?rq = "\<lparr>url = ''https://discord.com/api/v10/channels/c/messages'', authorization = ''t'',
              req_limit = 100, before = None\<rparr>"
  let ?y = "(?rq, Inr \<lparr>status_code = 401, json = [], resp_text = ''denied''\<rparr>)"
  have "\<exists>w3. prologue (demo_lib (status 401)) demo_env demo_args demo_world
            = Inr (''c'', ''t'', Bounded 100, ''messages.txt'', w3) \<and> log w3 = []"
    by (simp add: prologue_def load_environment_def demo_env_def demo_args_def lower_def
        endswith_def demo_lib_def demo_world_def print_def Let_def)
  then obtain w3 where p: "prologue (demo_lib (status 401)) demo_env demo_args demo_world
            = Inr (''c'', ''t'', Bounded 100, ''messages.txt'', w3)"
    and l: "log w3 = []"
    by blast
  have h: "prologue (demo_lib (status 401)) demo_env demo_args demo_world
            = Inr (''c'', ''t'', Bounded 100, ''messages.txt'', w3)
      \<and> sent (fetch_rounds (demo_lib (status 401)) ''c'' ''t'' (Bounded 100) w3 (Suc 0))
          = sent (fetch_rounds (demo_lib (status 401)) ''c'' ''t'' (Bounded 100) w3 0) @ [?y]
      \<and> failed (snd ?y)"
    using p l
    by (simp add: fetch_rounds_def rounds.simps fetch_step_def Let_def sent_def print_def
        demo_lib_def status_def failed_def)
  from fetch_errors_abort [where ?now1.0 = "''n1''" and ?now2.0 = "''n2''",
      THEN conjunct2, THEN conjunct1, THEN mp, OF h]
  obtain mw pre where
    m: "main (demo_lib (status 401)) demo_env demo_args ''n1'' ''n2'' demo_world
       = Some (Inl (SystemExit 1), mw)"
    and lm: "log mw
       = sent (fetch_rounds (demo_lib (status 401)) ''c'' ''t'' (Bounded 100) w3 0) @ [?y]"
    and fm: "files mw = files demo_world" and sm: "stdout mw = pre @ error_lines (snd ?y)"
    by blast
  from m fm sm have "main (demo_lib (status 401)) demo_env demo_args ''n1'' ''n2'' demo_world
                = Some (Inl (SystemExit 1), mw)
        \<and> files mw = Map.empty
        \<and> stdout mw = pre @ [''Error: Invalid Discord token'',
                             ''Please check your DISCORD_TOKEN in the .env file'']"
    by (simp add: e401 demo_world_def)
  then show "\<exists>mw pre. main (demo_lib (status 401)) demo_env demo_args ''n1'' ''n2'' demo_world
                = Some (Inl (SystemExit 1), mw)
        \<and> files mw = Map.empty
        \<and> stdout mw = pre @ [''Error: Invalid Discord token'',
                             ''Please check your DISCORD_TOKEN in the .env file'']"
    by blast
  have h5: "main (demo_lib (status 401)) demo_env demo_args ''n1'' ''n2'' demo_world
        = Some (Inl (SystemExit 1), mw)
      \<and> log mw = log demo_world @ [?y] \<and> ?y \<in> set [?y] \<and> failed (snd ?y)"
    using m lm l by (simp add: fetch_rounds_def sent_def print_def demo_world_def failed_def)
  from fetch_errors_abort [THEN conjunct2, THEN conjunct2, THEN conjunct2, THEN conjunct2,
      THEN conjunct1, THEN mp, OF h5]
  have "files mw = files demo_world" by simp
  then show "ended (main (demo_lib (status 401)) demo_env demo_args ''n1'' ''n2'' demo_world)
       = Some (Inl (SystemExit 1))
      \<and> file_after ''messages.txt''
       (main (demo_lib (status 401)) demo_env demo_args ''n1'' ''n2'' demo_world) = None"
    using m by (simp add: ended_def file_after_def demo_world_def)
  qed
  have p2: "\<exists>mw pre. main (demo_lib (status 500)) demo_env all_args ''n1'' ''n2'' demo_world
                = Some (Inl (SystemExit 1), mw)
        \<and> files mw = Map.empty
        \<and> stdout mw = pre @ [''Error: HTTP 500'', ''denied'']"
  proof -
  let ?rq = "\<lparr>url = ''https://discord.com/api/v10/channels/c/messages'', authorization = ''t'',
              req_limit = 100, before = None\<rparr>"
  let ?y = "(?rq, Inr \<lparr>status_code = 500, json = [], resp_text = ''denied''\<rparr>)"
  have "\<exists>w3. prologue (demo_lib (status 500)) demo_env all_args demo_world
            = Inr (''c'', ''t'', Unbounded, ''messages.txt'', w3) \<and> log w3 = []"
    by (simp add: prologue_def load_environment_def demo_env_def all_args_def lower_def
        endswith_def demo_lib_def demo_world_def print_def Let_def)
  then obtain w3 where p: "prologue (demo_lib (status 500)) demo_env all_args demo_world
            = Inr (''c'', ''t'', Unbounded, ''messages.txt'', w3)"
    and l: "log w3 = []"
    by blast
  have h: "prologue (demo_lib (status 500)) demo_env all_args demo_world
            = Inr (''c'', ''t'', Unbounded, ''messages.txt'', w3)
      \<and> sent (fetch_rounds (demo_lib (status 500)) ''c'' ''t'' Unbounded w3 (Suc 0))
          = sent (fetch_rounds (demo_lib (status 500)) ''c'' ''t'' Unbounded w3 0) @ [?y]
      \<and> failed (snd ?y)"
    using p l
    by (simp add: fetch_rounds_def rounds.simps fetch_step_def Let_def sent_def print_def
        demo_lib_def status_def failed_def)
  from fetch_errors_abort [where ?now1.0 = "''n1''" and ?now2.0 = "''n2''",
      THEN conjunct2, THEN conjunct1, THEN mp, OF h]
  obtain mw pre where
    "main (demo_lib (status 500)) demo_env all_args ''n1'' ''n2'' demo_world
       = Some (Inl (SystemExit 1), mw)"
    "files mw = files demo_world" "stdout mw = pre @ error_lines (snd ?y)"
    by blast
  then have "main (demo_lib (status 500)) demo_env all_args ''n1'' ''n2'' demo_world
                = Some (Inl (SystemExit 1), mw)
        \<and> files mw = Map.empty
        \<and> stdout mw = pre @ [''Error: HTTP 500'', ''denied'']"
    by (simp add: e500 demo_world_def)
  then show ?thesis by blast
  qed
  have p3: "\<exists>w'. fetch_messages (demo_lib (page_then 404)) ''c'' ''t'' Unbounded demo_world
                = Some (Inl (SystemExit 1), w')
        \<and> map (\<lambda>x. (req_limit (fst x), before (fst x))) (log w')
            = [(100, None), (100, Some ''99901'')]
        \<and> files w' = Map.empty
        \<and> stdout w' = [''Fetching messages from channel c...'', ''Fetched 100 messages so far...'',
                       ''Error: Channel not found - please check the channel ID'']"
  proof -
  let ?U = "''https://discord.com/api/v10/channels/c/messages''"
  let ?reply = "Inr \<lparr>status_code = 404, json = [], resp_text = ''denied''\<rparr> :: string + response"
  have "\<exists>v wk. fetch_rounds (demo_lib (page_then 404)) ''c'' ''t'' Unbounded demo_world (Suc 0)
              = Inr (v, wk)
          \<and> last_message_id v = Some ''99901''
          \<and> map (\<lambda>x. (req_limit (fst x), before (fst x))) (log wk) = [(100, None)]
          \<and> stdout wk = [''Fetching messages from channel c...'', ''Fetched 100 messages so far...'']"
    by (simp add: fetch_rounds_def rounds.simps fetch_step_def Let_def print_def demo_lib_def
        page_then_def demo_world_def numbered_page_length numbered_page_Nil numbered_page_last
        str_nat.simps)
  then obtain v wk where
    r: "fetch_rounds (demo_lib (page_then 404)) ''c'' ''t'' Unbounded demo_world (Suc 0) = Inr (v, wk)"
    and v: "last_message_id v = Some ''99901''"
    and wk: "map (\<lambda>x. (req_limit (fst x), before (fst x))) (log wk) = [(100, None)]"
       "stdout wk = [''Fetching messages from channel c...'', ''Fetched 100 messages so far...'']"
    by (elim exE conjE)
  have h: "fetch_rounds (demo_lib (page_then 404)) ''c'' ''t'' Unbounded demo_world (Suc 0) = Inr (v, wk)
      \<and> api (demo_lib (page_then 404)) (server wk)
          (request_of (''https://discord.com/api/v10/channels/'' @ ''c'' @ ''/messages'') ''t'' v)
          = (?reply, ())
      \<and> failed ?reply"
    using r v by (simp add: demo_lib_def page_then_def request_of_def failed_def)
  from fetch_errors_abort [THEN conjunct2, THEN conjunct2, THEN conjunct1, THEN mp, OF h]
  obtain w' where
    w': "fetch_messages (demo_lib (page_then 404)) ''c'' ''t'' Unbounded demo_world
         = Some (Inl (SystemExit 1), w')"
      "log w' = log wk
          @ [(request_of (''https://discord.com/api/v10/channels/'' @ ''c'' @ ''/messages'') ''t'' v,
              ?reply)]"
      "files w' = files demo_world" "stdout w' = stdout wk @ error_lines ?reply"
    by blast
  from r have "remaining v = Unbounded"
    by (auto simp: fetch_rounds_def rounds.simps fetch_step_def Let_def split: prod.splits
        sum.splits if_splits)
  then have "fetch_messages (demo_lib (page_then 404)) ''c'' ''t'' Unbounded demo_world
                = Some (Inl (SystemExit 1), w')
        \<and> map (\<lambda>x. (req_limit (fst x), before (fst x))) (log w')
            = [(100, None), (100, Some ''99901'')]
        \<and> files w' = Map.empty
        \<and> stdout w' = [''Fetching messages from channel c...'', ''Fetched 100 messages so far...'',
                       ''Error: Channel not found - please check the channel ID'']"
    using w' wk v by (simp add: request_of_def e404 demo_world_def)
  then show ?thesis by (rule exI [of _ w'])
  qed
  have p4: "\<exists>w' pre. fetch_messages (demo_lib (status 403)) ''c'' ''t'' Unbounded demo_world
                = Some (Inl (SystemExit 1), w')
        \<and> length (log w') = 1 \<and> files w' = Map.empty
        \<and> stdout w' = pre
            @ [''Error: Access forbidden - you don't have permission to access this channel'']"
  proof -
  let ?rq = "\<lparr>url = ''https://discord.com/api/v10/channels/c/messages'', authorization = ''t'',
              req_limit = 100, before = None\<rparr>"
  let ?y = "(?rq, Inr \<lparr>status_code = 403, json = [], resp_text = ''denied''\<rparr>)"
  have h: "sent (fetch_rounds (demo_lib (status 403)) ''c'' ''t'' Unbounded demo_world (Suc 0))
          = sent (fetch_rounds (demo_lib (status 403)) ''c'' ''t'' Unbounded demo_world 0) @ [?y]
      \<and> failed (snd ?y)"
    by (simp add: fetch_rounds_def rounds.simps fetch_step_def Let_def sent_def print_def
        demo_lib_def status_def failed_def demo_world_def)
  from fetch_errors_abort [THEN conjunct1, THEN mp, OF h]
  obtain w' pre where
    f: "fetch_messages (demo_lib (status 403)) ''c'' ''t'' Unbounded demo_world
       = Some (Inl (SystemExit 1), w')"
    and lw: "log w'
       = sent (fetch_rounds (demo_lib (status 403)) ''c'' ''t'' Unbounded demo_world 0) @ [?y]"
    and sw: "stdout w' = pre @ error_lines (snd ?y)"
    by blast
  have h4: "fetch_messages (demo_lib (status 403)) ''c'' ''t'' Unbounded demo_world
        = Some (Inl (SystemExit 1), w')
      \<and> log w' = log demo_world @ [?y] \<and> ?y \<in> set [?y] \<and> failed (snd ?y)"
    using f lw by (simp add: fetch_rounds_def sent_def print_def demo_world_def failed_def)
  from fetch_errors_abort [THEN conjunct2, THEN conjunct2, THEN conjunct2, THEN conjunct1,
      THEN mp, OF h4]
  have "files w' = files demo_world" by simp
  with f lw sw have "fetch_messages (demo_lib (status 403)) ''c'' ''t'' Unbounded demo_world
                = Some (Inl (SystemExit 1), w')
        \<and> length (log w') = 1 \<and> files w' = Map.empty
        \<and> stdout w' = pre
            @ [''Error: Access forbidden - you don't have permission to access this channel'']"
    by (simp add: e403 demo_world_def fetch_rounds_def sent_def print_def)
  then show ?thesis by blast
  qed
  show ?thesis
    by (intro conjI)
      (rule p1, rule p2, rule p3, rule p4, rule p5 [THEN conjunct1], rule p5 [THEN conjunct2],
       rule d1, rule d2)
qed




end
